theory Spec2Isabelle
  imports Main "HOL-Library.Word"
begin

unbundle bit_operations_syntax

section \<open>Data model of the scheduler\<close>

text \<open>
  The embedding follows \<^verbatim>\<open>src/scheduler/scheduler.js\<close>. JavaScript arrays and
  \<^verbatim>\<open>Frame\<close> objects are mutable and shared by reference, so they live in two
  explicit stores: \<open>arrays\<close> maps an array address to its contents and \<open>frames\<close> maps a
  frame address to the Frame object. A field such as \<^verbatim>\<open>_microtasks\<close> holds an address;
  \<^verbatim>\<open>self._microtasks = []\<close> allocates a new address, \<^verbatim>\<open>push\<close> changes the contents
  stored at an address.
\<close>

type_synonym ref = nat
type_synonym fid = nat

subsection \<open>Flag constants\<close>

definition RUNNING :: "32 word" where "RUNNING = 0x0100"
definition MICROTASK_PENDING :: "32 word" where "MICROTASK_PENDING = 0x0001"
definition MACROTASK_PENDING :: "32 word" where "MACROTASK_PENDING = 0x0002"
definition FRAMETASK_PENDING :: "32 word" where "FRAMETASK_PENDING = 0x0008"
definition MICROTASK_RUNNING :: "32 word" where "MICROTASK_RUNNING = 0x0010"
definition MACROTASK_RUNNING :: "32 word" where "MACROTASK_RUNNING = 0x0020"
definition FRAMETASK_RUNNING :: "32 word" where "FRAMETASK_RUNNING = 0x0080"

text \<open>
  Modelled from the spec: the enum \<^verbatim>\<open>kivi.scheduler.FrameFlags\<close> is declared with the
  Frame class, which is not part of the scheduler source file. The spec gives the four bits
  WRITE, WRITE_PRIO, READ, AFTER and the derived \<open>WRITE_ANY = WRITE | WRITE_PRIO\<close>; four
  distinct single bits are taken here.
\<close>

definition WRITE_PRIO :: "32 word" where "WRITE_PRIO = 0x0001"
definition WRITE :: "32 word" where "WRITE = 0x0002"
definition READ :: "32 word" where "READ = 0x0004"
definition AFTER :: "32 word" where "AFTER = 0x0008"
definition WRITE_ANY :: "32 word" where "WRITE_ANY = 0x0003"

subsection \<open>Tasks\<close>

text \<open>
  A task is either a plain callback or a component (an object with an \<^verbatim>\<open>update()\<close>
  method); both are identified by a number, and the code they run is looked up in a
  \<open>program\<close>. What a callback can do to the scheduler is call its API, so a body is a list
  of API calls: \<^verbatim>\<open>scheduleMicrotask\<close>, \<^verbatim>\<open>scheduleMacrotask\<close>, an append to the frame
  returned by \<^verbatim>\<open>nextFrame()\<close> or by \<^verbatim>\<open>currentFrame()\<close>, and \<^verbatim>\<open>throw\<close>. \<open>Once k a\<close>
  is a closure with a private boolean \<open>k\<close>: it performs \<open>a\<close> on its first execution only.
  Bodies refer to tasks by number, so a task may schedule itself again.
\<close>

datatype task = Callback nat | Component nat

datatype frame_op = Write task "nat option" | Read task | After task

datatype action =
    ScheduleMicrotask task
  | ScheduleMacrotask task
  | OnNextFrame frame_op
  | OnCurrentFrame frame_op
  | Throw
  | Once nat action

record program =
  call_body :: "nat \<Rightarrow> action list"
  update_body :: "nat \<Rightarrow> action list"

datatype error = TaskError | TypeError

subsection \<open>Frames and the scheduler\<close>

record frame =
  frame_flags :: "32 word"
  writeTaskGroups :: "ref option list"
  writeTasks :: "ref option"
  readTasks :: "ref option"
  afterTasks :: "ref option"

text \<open>
  One record per executed task, appended to \<open>trace\<close> when the flush routine invokes the
  task. It is bookkeeping of the model only: which loop ran the task (\<open>ev_phase\<close>, and
  \<open>ev_round\<close>: the microtask wave, or the iteration of the outer \<^verbatim>\<open>do ... while\<close> of the
  frame flush), the array the loop iterates (\<open>ev_array\<close>), and what the task sees when it
  starts: the scheduler's flags, its clock and the arrays that are reachable from the
  scheduler at that moment (\<open>ev_live\<close>).
\<close>

datatype phase = MicroPhase | MacroPhase | PrioWritePhase nat | WritePhase | ReadPhase | AfterPhase

record event =
  ev_phase :: phase
  ev_round :: nat
  ev_task :: task
  ev_array :: ref
  ev_flags :: "32 word"
  ev_clock :: nat
  ev_live :: "ref list"

text \<open>
  The fields \<open>flags\<close> to \<open>next_frame\<close> are those of the \<^verbatim>\<open>Scheduler\<close> object
  (\<open>cur_frame\<close> and \<open>next_frame\<close> are \<^verbatim>\<open>_currentFrame\<close> and \<^verbatim>\<open>_nextFrame\<close>). The clock is a
  JavaScript number that holds a whole number, modelled as a natural number; it is only ever
  changed by \<^verbatim>\<open>self.clock++\<close>, which is \<open>clock_tick\<close> below. \<open>frames\<close>, \<open>arrays\<close> and \<open>fresh\<close> are the
  object store. The three request counters count the calls made to the host primitives
  (\<^verbatim>\<open>requestNextTick\<close> of the microtask and macrotask schedulers,
  \<^verbatim>\<open>window.requestAnimationFrame\<close>). \<open>fired\<close> holds the private booleans of the \<open>Once\<close>
  closures.
\<close>

record scheduler =
  flags :: "32 word"
  clock :: nat
  microtasks :: ref
  macrotasks :: ref
  cur_frame :: fid
  next_frame :: fid
  frames :: "fid \<Rightarrow> frame"
  arrays :: "ref \<Rightarrow> task list"
  fresh :: ref
  microtask_requests :: nat
  macrotask_requests :: nat
  animation_requests :: nat
  fired :: "nat set"
  trace :: "event list"

type_synonym result = "(error \<times> scheduler) + scheduler"

subsection \<open>The clock\<close>

text \<open>
  \<^verbatim>\<open>self.clock++\<close> adds 1 in double arithmetic. Below \<open>2^53\<close> the sum is exact. From
  \<open>2^53\<close> up to \<open>2^54\<close> the doubles are the even numbers: \<open>c + 1\<close> lies halfway between
  \<open>c\<close> and \<open>c + 2\<close> and is rounded to the one whose significand \<open>c div 2\<close> or
  \<open>c div 2 + 1\<close> is even. From \<open>2^54\<close> on the doubles are at least 4 apart and \<open>c + 1\<close>
  is rounded back to \<open>c\<close>. So a clock that has reached \<open>2^53\<close> stays there.
\<close>

definition clock_tick :: "nat \<Rightarrow> nat" where
  "clock_tick c =
     (if c < 2 ^ 53 then c + 1 else if c < 2 ^ 54 \<and> odd (c div 2) then c + 2 else c)"

subsection \<open>The object store\<close>

definition new_array :: "scheduler \<Rightarrow> ref \<times> scheduler" where
  "new_array s = (fresh s, s\<lparr>arrays := (arrays s)(fresh s := []), fresh := Suc (fresh s)\<rparr>)"

definition push :: "ref \<Rightarrow> task \<Rightarrow> scheduler \<Rightarrow> scheduler" where
  "push r cb s = s\<lparr>arrays := (arrays s)(r := arrays s r @ [cb])\<rparr>"

definition upd_frame :: "fid \<Rightarrow> (frame \<Rightarrow> frame) \<Rightarrow> scheduler \<Rightarrow> scheduler" where
  "upd_frame f g s = s\<lparr>frames := (frames s)(f := g (frames s f))\<rparr>"

definition set_frame_flag :: "fid \<Rightarrow> 32 word \<Rightarrow> scheduler \<Rightarrow> scheduler" where
  "set_frame_flag f m s = upd_frame f (\<lambda>fr. fr\<lparr>frame_flags := frame_flags fr OR m\<rparr>) s"

definition clear_frame_flag :: "fid \<Rightarrow> 32 word \<Rightarrow> scheduler \<Rightarrow> scheduler" where
  "clear_frame_flag f m s = upd_frame f (\<lambda>fr. fr\<lparr>frame_flags := frame_flags fr AND NOT m\<rparr>) s"

definition frame_flag_set :: "fid \<Rightarrow> 32 word \<Rightarrow> scheduler \<Rightarrow> bool" where
  "frame_flag_set f m s \<longleftrightarrow> frame_flags (frames s f) AND m \<noteq> 0"

fun the_refs :: "ref option list \<Rightarrow> ref list" where
  "the_refs [] = []"
| "the_refs (None # xs) = the_refs xs"
| "the_refs (Some r # xs) = r # the_refs xs"

definition frame_refs :: "frame \<Rightarrow> ref list" where
  "frame_refs fr =
     the_refs [writeTasks fr, readTasks fr, afterTasks fr] @ the_refs (writeTaskGroups fr)"

text \<open>The arrays an API call can append to: the two queues and the task groups of the
  current and of the next frame.\<close>

definition live_refs :: "scheduler \<Rightarrow> ref list" where
  "live_refs s =
     microtasks s # macrotasks s #
     frame_refs (frames s (cur_frame s)) @ frame_refs (frames s (next_frame s))"

section \<open>The scheduling API\<close>

definition currentFrame :: "scheduler \<Rightarrow> fid" where
  "currentFrame s = cur_frame s"

definition nextFrame :: "scheduler \<Rightarrow> fid \<times> scheduler" where
  "nextFrame s =
     (if flags s AND FRAMETASK_PENDING = 0
      then (next_frame s,
            s\<lparr>flags := flags s OR FRAMETASK_PENDING,
              animation_requests := animation_requests s + 1\<rparr>)
      else (next_frame s, s))"

definition scheduleMicrotask :: "task \<Rightarrow> scheduler \<Rightarrow> scheduler" where
  "scheduleMicrotask cb s =
     (let s1 = (if flags s AND MICROTASK_PENDING = 0
                then s\<lparr>flags := flags s OR MICROTASK_PENDING,
                       microtask_requests := microtask_requests s + 1\<rparr>
                else s)
      in push (microtasks s1) cb s1)"

definition scheduleMacrotask :: "task \<Rightarrow> scheduler \<Rightarrow> scheduler" where
  "scheduleMacrotask cb s =
     (let s1 = (if flags s AND MACROTASK_PENDING = 0
                then s\<lparr>flags := flags s OR MACROTASK_PENDING,
                       macrotask_requests := macrotask_requests s + 1\<rparr>
                else s)
      in push (macrotasks s1) cb s1)"

subsection \<open>Appending to a frame\<close>

text \<open>
  Modelled from the spec: the methods of \<^verbatim>\<open>kivi.scheduler.Frame\<close> that append a task
  (\<^verbatim>\<open>write\<close>, \<^verbatim>\<open>read\<close>, \<^verbatim>\<open>after\<close>) and its constructor are not part of the scheduler
  source file. The spec says that callers push work into one of the frame's task groups, that
  the frame's flags describe which groups are non-empty, that \<open>writeTaskGroups\<close> is indexed
  by priority rank, and that a slot is either empty or holds a group. So an append sets the
  group's flag, creates the array where the field or slot is null (the flush routine nulls
  them), and pushes the task onto the array in place. A write with a rank goes to the slot of
  that rank, the sequence of slots being extended with empty slots up to the rank; a write
  without a rank goes to \<open>writeTasks\<close>.
\<close>

definition frame_push ::
  "fid \<Rightarrow> (frame \<Rightarrow> ref option) \<Rightarrow> (ref \<Rightarrow> frame \<Rightarrow> frame) \<Rightarrow> task \<Rightarrow> scheduler \<Rightarrow> scheduler" where
  "frame_push f get_field set_field cb s =
     (case get_field (frames s f) of
        Some r \<Rightarrow> push r cb s
      | None \<Rightarrow> (let (r, s1) = new_array s in push r cb (upd_frame f (set_field r) s1)))"

definition pad_groups :: "nat \<Rightarrow> ref option list \<Rightarrow> ref option list" where
  "pad_groups p gs = gs @ replicate (Suc p - length gs) None"

definition frame_write :: "fid \<Rightarrow> task \<Rightarrow> nat option \<Rightarrow> scheduler \<Rightarrow> scheduler" where
  "frame_write f cb prio s =
     (case prio of
        None \<Rightarrow>
          frame_push f writeTasks (\<lambda>r fr. fr\<lparr>writeTasks := Some r\<rparr>) cb (set_frame_flag f WRITE s)
      | Some p \<Rightarrow>
          frame_push f (\<lambda>fr. writeTaskGroups fr ! p)
            (\<lambda>r fr. fr\<lparr>writeTaskGroups := (writeTaskGroups fr)[p := Some r]\<rparr>) cb
            (upd_frame f (\<lambda>fr. fr\<lparr>writeTaskGroups := pad_groups p (writeTaskGroups fr)\<rparr>)
               (set_frame_flag f WRITE_PRIO s)))"

definition frame_read :: "fid \<Rightarrow> task \<Rightarrow> scheduler \<Rightarrow> scheduler" where
  "frame_read f cb s =
     frame_push f readTasks (\<lambda>r fr. fr\<lparr>readTasks := Some r\<rparr>) cb (set_frame_flag f READ s)"

definition frame_after :: "fid \<Rightarrow> task \<Rightarrow> scheduler \<Rightarrow> scheduler" where
  "frame_after f cb s =
     frame_push f afterTasks (\<lambda>r fr. fr\<lparr>afterTasks := Some r\<rparr>) cb (set_frame_flag f AFTER s)"

fun apply_frame_op :: "fid \<Rightarrow> frame_op \<Rightarrow> scheduler \<Rightarrow> scheduler" where
  "apply_frame_op f (Write cb prio) s = frame_write f cb prio s"
| "apply_frame_op f (Read cb) s = frame_read f cb s"
| "apply_frame_op f (After cb) s = frame_after f cb s"

definition new_frame :: frame where
  "new_frame = \<lparr>frame_flags = 0, writeTaskGroups = [], writeTasks = None,
                readTasks = None, afterTasks = None\<rparr>"

section \<open>Running a task\<close>

fun exec_action :: "action \<Rightarrow> scheduler \<Rightarrow> result" where
  "exec_action (ScheduleMicrotask cb) s = Inr (scheduleMicrotask cb s)"
| "exec_action (ScheduleMacrotask cb) s = Inr (scheduleMacrotask cb s)"
| "exec_action (OnNextFrame op) s = (let (f, s1) = nextFrame s in Inr (apply_frame_op f op s1))"
| "exec_action (OnCurrentFrame op) s = Inr (apply_frame_op (currentFrame s) op s)"
| "exec_action Throw s = Inl (TaskError, s)"
| "exec_action (Once k a) s =
     (if k \<in> fired s then Inr s else exec_action a (s\<lparr>fired := insert k (fired s)\<rparr>))"

fun exec_actions :: "action list \<Rightarrow> scheduler \<Rightarrow> result" where
  "exec_actions [] s = Inr s"
| "exec_actions (a # as) s =
     (case exec_action a s of Inl e \<Rightarrow> Inl e | Inr s1 \<Rightarrow> exec_actions as s1)"

definition log_event :: "phase \<Rightarrow> nat \<Rightarrow> ref \<Rightarrow> task \<Rightarrow> scheduler \<Rightarrow> scheduler" where
  "log_event ph rnd r t s =
     s\<lparr>trace := trace s @
        [\<lparr>ev_phase = ph, ev_round = rnd, ev_task = t, ev_array = r,
          ev_flags = flags s, ev_clock = clock s, ev_live = live_refs s\<rparr>]\<rparr>"

definition is_write_phase :: "phase \<Rightarrow> bool" where
  "is_write_phase ph = (case ph of PrioWritePhase _ \<Rightarrow> True | WritePhase \<Rightarrow> True | _ \<Rightarrow> False)"

text \<open>
  The two ways the flush routines invoke a task. The write loops test
  \<^verbatim>\<open>task.constructor === kivi.Component\<close> and call \<^verbatim>\<open>task.update()\<close> or
  \<^verbatim>\<open>task.call()\<close>; the other loops call \<^verbatim>\<open>task()\<close>, which raises a TypeError when the
  task is a component, since an object is not callable.
\<close>

definition invoke :: "program \<Rightarrow> phase \<Rightarrow> nat \<Rightarrow> ref \<Rightarrow> task \<Rightarrow> scheduler \<Rightarrow> result" where
  "invoke P ph rnd r t s =
     (case t of
        Callback c \<Rightarrow> exec_actions (call_body P c) (log_event ph rnd r t s)
      | Component c \<Rightarrow>
          (if is_write_phase ph then exec_actions (update_body P c) (log_event ph rnd r t s)
           else Inl (TypeError, s)))"

section \<open>The flush routines\<close>

text \<open>
  A flush need not return: a task that schedules itself again into the queue being drained
  keeps the loop running. Every loop therefore takes a bound on its depth and returns
  \<open>None\<close> when the bound is used up. \<open>Some (Inl (e, s))\<close> is an error \<open>e\<close> that left the
  flush routine in state \<open>s\<close>; \<open>Some (Inr s)\<close> is a normal return.
\<close>

definition and_then :: "result option \<Rightarrow> (scheduler \<Rightarrow> result option) \<Rightarrow> result option" where
  "and_then r k = (case r of None \<Rightarrow> None | Some (Inl e) \<Rightarrow> Some (Inl e) | Some (Inr s) \<Rightarrow> k s)"

text \<open>\<^verbatim>\<open>for (i = 0; i < tasks.length; i++) tasks[i]()\<close>, from index \<open>i\<close> on: the length is
  read again at every iteration.\<close>

fun run_tasks :: "program \<Rightarrow> nat \<Rightarrow> phase \<Rightarrow> nat \<Rightarrow> ref \<Rightarrow> nat \<Rightarrow> scheduler \<Rightarrow> result option" where
  "run_tasks P 0 ph rnd r i s = None"
| "run_tasks P (Suc n) ph rnd r i s =
     (if i < length (arrays s r)
      then and_then (Some (invoke P ph rnd r (arrays s r ! i) s)) (run_tasks P n ph rnd r (Suc i))
      else Some (Inr s))"

subsection \<open>Microtasks\<close>

fun microtask_waves :: "program \<Rightarrow> nat \<Rightarrow> nat \<Rightarrow> ref \<Rightarrow> scheduler \<Rightarrow> result option" where
  "microtask_waves P 0 w tasks s = None"
| "microtask_waves P (Suc n) w tasks s =
     (if length (arrays s tasks) > 0
      then (let (r, s1) = new_array s; s2 = s1\<lparr>microtasks := r\<rparr>
            in and_then (run_tasks P n MicroPhase w tasks 0 s2)
                 (\<lambda>s3. microtask_waves P n (Suc w) (microtasks s3) s3))
      else Some (Inr s))"

definition microtaskFlush :: "program \<Rightarrow> nat \<Rightarrow> scheduler \<Rightarrow> result option" where
  "microtaskFlush P n s =
     (let s1 = s\<lparr>flags := flags s OR RUNNING\<rparr>
      in and_then (microtask_waves P n 1 (microtasks s1) s1)
           (\<lambda>s2. Some (Inr (s2\<lparr>clock := clock_tick (clock s2),
                               flags := flags s2 AND NOT (MICROTASK_PENDING OR RUNNING)\<rparr>))))"

subsection \<open>Macrotasks\<close>

definition macrotaskFlush :: "program \<Rightarrow> nat \<Rightarrow> scheduler \<Rightarrow> result option" where
  "macrotaskFlush P n s =
     (let s1 = s\<lparr>flags := flags s AND NOT MACROTASK_PENDING\<rparr>;
          s2 = s1\<lparr>flags := flags s1 OR RUNNING\<rparr>;
          tasks = macrotasks s2
      in and_then
           (if length (arrays s2 tasks) > 0
            then (let (r, s3) = new_array s2
                  in run_tasks P n MacroPhase 1 tasks 0 (s3\<lparr>macrotasks := r\<rparr>))
            else Some (Inr s2))
           (\<lambda>s4. Some (Inr (s4\<lparr>clock := clock_tick (clock s4),
                               flags := flags s4 AND NOT RUNNING\<rparr>))))"

subsection \<open>Animation frames\<close>

text \<open>The loop over \<^verbatim>\<open>frame.writeTaskGroups\<close>, from rank \<open>i\<close> on. \<^verbatim>\<open>groups\<close> is the array
  object held by the frame, which is never replaced, so the slots are read from the frame.\<close>

fun run_groups :: "program \<Rightarrow> nat \<Rightarrow> nat \<Rightarrow> fid \<Rightarrow> nat \<Rightarrow> scheduler \<Rightarrow> result option" where
  "run_groups P 0 rnd f i s = None"
| "run_groups P (Suc n) rnd f i s =
     (let groups = writeTaskGroups (frames s f)
      in if i < length groups
         then (case groups ! i of
                 None \<Rightarrow> run_groups P n rnd f (Suc i) s
               | Some grp \<Rightarrow>
                   and_then
                     (run_tasks P n (PrioWritePhase i) rnd grp 0
                        (upd_frame f (\<lambda>fr. fr\<lparr>writeTaskGroups := (writeTaskGroups fr)[i := None]\<rparr>) s))
                     (run_groups P n rnd f (Suc i)))
         else Some (Inr s))"

definition prio_write_step :: "program \<Rightarrow> nat \<Rightarrow> nat \<Rightarrow> fid \<Rightarrow> scheduler \<Rightarrow> result option" where
  "prio_write_step P n rnd f s =
     (if frame_flag_set f WRITE_PRIO s
      then run_groups P n rnd f 0 (clear_frame_flag f WRITE_PRIO s)
      else Some (Inr s))"

definition plain_write_step :: "program \<Rightarrow> nat \<Rightarrow> nat \<Rightarrow> fid \<Rightarrow> scheduler \<Rightarrow> result option" where
  "plain_write_step P n rnd f s =
     (if frame_flag_set f WRITE s
      then (let s1 = clear_frame_flag f WRITE s
            in case writeTasks (frames s1 f) of
                 None \<Rightarrow> Some (Inl (TypeError, s1))
               | Some grp \<Rightarrow> run_tasks P n WritePhase rnd grp 0 s1)
      else Some (Inr s))"

fun write_loop :: "program \<Rightarrow> nat \<Rightarrow> nat \<Rightarrow> fid \<Rightarrow> scheduler \<Rightarrow> result option" where
  "write_loop P 0 rnd f s = None"
| "write_loop P (Suc n) rnd f s =
     (if frame_flag_set f WRITE_ANY s
      then and_then (prio_write_step P n rnd f s)
             (\<lambda>s1. and_then (plain_write_step P n rnd f s1) (write_loop P n rnd f))
      else Some (Inr s))"

fun read_loop :: "program \<Rightarrow> nat \<Rightarrow> nat \<Rightarrow> fid \<Rightarrow> scheduler \<Rightarrow> result option" where
  "read_loop P 0 rnd f s = None"
| "read_loop P (Suc n) rnd f s =
     (if frame_flag_set f READ s
      then (let s1 = clear_frame_flag f READ s;
                grp = readTasks (frames s1 f);
                s2 = upd_frame f (\<lambda>fr. fr\<lparr>readTasks := None\<rparr>) s1
            in case grp of
                 None \<Rightarrow> Some (Inl (TypeError, s2))
               | Some g \<Rightarrow> and_then (run_tasks P n ReadPhase rnd g 0 s2) (read_loop P n rnd f))
      else Some (Inr s))"

text \<open>The outer \<^verbatim>\<open>do ... while ((frame.flags & WRITE_ANY) !== 0)\<close>; \<open>rnd\<close> counts its
  iterations.\<close>

fun write_read_loop :: "program \<Rightarrow> nat \<Rightarrow> nat \<Rightarrow> fid \<Rightarrow> scheduler \<Rightarrow> result option" where
  "write_read_loop P 0 rnd f s = None"
| "write_read_loop P (Suc n) rnd f s =
     and_then (write_loop P n rnd f s)
       (\<lambda>s1. and_then (read_loop P n rnd f s1)
          (\<lambda>s2. if frame_flag_set f WRITE_ANY s2
                then write_read_loop P n (Suc rnd) f s2
                else Some (Inr s2)))"

fun after_loop :: "program \<Rightarrow> nat \<Rightarrow> nat \<Rightarrow> fid \<Rightarrow> scheduler \<Rightarrow> result option" where
  "after_loop P 0 rnd f s = None"
| "after_loop P (Suc n) rnd f s =
     (if frame_flag_set f AFTER s
      then (let s1 = clear_frame_flag f AFTER s
            in case afterTasks (frames s1 f) of
                 None \<Rightarrow> Some (Inl (TypeError, s1))
               | Some g \<Rightarrow> and_then (run_tasks P n AfterPhase rnd g 0 s1) (after_loop P n (Suc rnd) f))
      else Some (Inr s))"

definition handleAnimationFrame :: "program \<Rightarrow> nat \<Rightarrow> scheduler \<Rightarrow> result option" where
  "handleAnimationFrame P n s =
     (let s1 = s\<lparr>flags := flags s AND NOT FRAMETASK_PENDING\<rparr>;
          s2 = s1\<lparr>flags := flags s1 OR RUNNING\<rparr>;
          frame = next_frame s2;
          s3 = s2\<lparr>next_frame := cur_frame s2\<rparr>;
          s4 = s3\<lparr>cur_frame := frame\<rparr>
      in and_then (write_read_loop P n 1 frame s4)
           (\<lambda>s5. and_then (after_loop P n 1 frame s5)
              (\<lambda>s6. Some (Inr (s6\<lparr>clock := clock_tick (clock s6),
                                  flags := flags s6 AND NOT RUNNING\<rparr>)))))"

subsection \<open>The scheduler as constructed\<close>

definition new_scheduler :: scheduler where
  "new_scheduler =
     \<lparr>flags = 0, clock = 1, microtasks = 0, macrotasks = 1, cur_frame = 0, next_frame = 1,
      frames = (\<lambda>_. new_frame), arrays = (\<lambda>_. []), fresh = 2,
      microtask_requests = 0, macrotask_requests = 0, animation_requests = 0,
      fired = {}, trace = []\<rparr>"

section \<open>Notions used in the statements and proofs\<close>

definition final :: "result \<Rightarrow> scheduler" where
  "final res = (case res of Inl (e, s) \<Rightarrow> s | Inr s \<Rightarrow> s)"

text \<open>Bits of the flag register that no scheduling call touches.\<close>

definition untouched :: "32 word \<Rightarrow> bool" where
  "untouched m \<longleftrightarrow>
     m AND MICROTASK_PENDING = 0 \<and> m AND MACROTASK_PENDING = 0 \<and> m AND FRAMETASK_PENDING = 0"

text \<open>A PENDING bit and the count of host registrations of its domain move together: the
  bit is set at most once, with exactly one registration, and is not cleared.\<close>

definition arm_rel :: "32 word \<Rightarrow> (scheduler \<Rightarrow> nat) \<Rightarrow> scheduler \<Rightarrow> scheduler \<Rightarrow> bool" where
  "arm_rel p cnt s s' \<longleftrightarrow>
     (flags s' AND p = flags s AND p \<and> cnt s' = cnt s) \<or>
     (flags s AND p = 0 \<and> flags s' AND p \<noteq> 0 \<and> cnt s' = cnt s + 1)"

definition regs_rel :: "scheduler \<Rightarrow> scheduler \<Rightarrow> bool" where
  "regs_rel s s' \<longleftrightarrow>
     arm_rel MICROTASK_PENDING microtask_requests s s' \<and>
     arm_rel MACROTASK_PENDING macrotask_requests s s' \<and>
     arm_rel FRAMETASK_PENDING animation_requests s s'"

text \<open>What a task body leaves alone.\<close>

definition api_rel :: "scheduler \<Rightarrow> scheduler \<Rightarrow> bool" where
  "api_rel s s' \<longleftrightarrow>
     clock s' = clock s \<and> trace s' = trace s \<and>
     microtasks s' = microtasks s \<and> macrotasks s' = macrotasks s \<and>
     cur_frame s' = cur_frame s \<and> next_frame s' = next_frame s \<and>
     fresh s \<le> fresh s' \<and> regs_rel s s' \<and>
     (\<forall>m. untouched m \<longrightarrow> flags s' AND m = flags s AND m)"

text \<open>What every step of a flush keeps.\<close>

definition stable :: "scheduler \<Rightarrow> scheduler \<Rightarrow> bool" where
  "stable s s' \<longleftrightarrow>
     clock s' = clock s \<and> cur_frame s' = cur_frame s \<and> next_frame s' = next_frame s \<and>
     fresh s \<le> fresh s' \<and> regs_rel s s' \<and>
     (\<forall>m. untouched m \<longrightarrow> flags s' AND m = flags s AND m)"

definition closed_rel :: "program \<Rightarrow> (scheduler \<Rightarrow> scheduler \<Rightarrow> bool) \<Rightarrow> bool" where
  "closed_rel P R \<longleftrightarrow>
     (\<forall>s. R s s) \<and> (\<forall>a b c. R a b \<longrightarrow> R b c \<longrightarrow> R a c) \<and>
     (\<forall>ph rnd r t s. R s (final (invoke P ph rnd r t s))) \<and>
     (\<forall>f g s. R s (upd_frame f g s))"

text \<open>Every task of a flush starts with the clock and the untouched flag bits that the
  flush had when its loops began.\<close>

definition sees :: "scheduler \<Rightarrow> event \<Rightarrow> bool" where
  "sees s e \<longleftrightarrow> ev_clock e = clock s \<and> (\<forall>m. untouched m \<longrightarrow> ev_flags e AND m = flags s AND m)"

definition run_rel :: "scheduler \<Rightarrow> scheduler \<Rightarrow> bool" where
  "run_rel s s' \<longleftrightarrow>
     stable s s' \<and> (\<exists>evs. trace s' = trace s @ evs \<and> (\<forall>e \<in> set evs. sees s e))"

definition new_events :: "scheduler \<Rightarrow> scheduler \<Rightarrow> event list" where
  "new_events s s' = drop (length (trace s)) (trace s')"

definition micro_start :: "scheduler \<Rightarrow> scheduler" where
  "micro_start s = s\<lparr>flags := flags s OR RUNNING\<rparr>"

definition macro_start :: "scheduler \<Rightarrow> scheduler" where
  "macro_start s = s\<lparr>flags := (flags s AND NOT MACROTASK_PENDING) OR RUNNING\<rparr>"

definition frame_start :: "scheduler \<Rightarrow> scheduler" where
  "frame_start s =
     s\<lparr>flags := (flags s AND NOT FRAMETASK_PENDING) OR RUNNING,
       next_frame := cur_frame s, cur_frame := next_frame s\<rparr>"

definition finish :: "32 word \<Rightarrow> scheduler \<Rightarrow> scheduler" where
  "finish m s = s\<lparr>clock := clock_tick (clock s), flags := flags s AND NOT m\<rparr>"

definition domain_running :: "32 word" where
  "domain_running = MICROTASK_RUNNING OR MACROTASK_RUNNING OR FRAMETASK_RUNNING"

text \<open>A flush either stops at an error, in a state reached by its loops, or returns the state
  reached by its loops with the clock advanced and the RUNNING bits cleared.\<close>

definition flush_result :: "(scheduler \<Rightarrow> scheduler \<Rightarrow> bool) \<Rightarrow> scheduler \<Rightarrow> 32 word \<Rightarrow> result \<Rightarrow> bool" where
  "flush_result R s0 m res \<longleftrightarrow>
     (\<exists>e s'. res = Inl (e, s') \<and> R s0 s') \<or> (\<exists>s'. res = Inr (finish m s') \<and> R s0 s')"

text \<open>How a flush ended.\<close>

definition completes :: "result option \<Rightarrow> bool" where
  "completes r = (case r of Some (Inr _) \<Rightarrow> True | _ \<Rightarrow> False)"

definition raises :: "result option \<Rightarrow> bool" where
  "raises r = (case r of Some (Inl _) \<Rightarrow> True | _ \<Rightarrow> False)"

definition flushes :: "(program \<Rightarrow> nat \<Rightarrow> scheduler \<Rightarrow> result option) set" where
  "flushes = {microtaskFlush, macrotaskFlush, handleAnimationFrame}"

subsection \<open>Example programs and states\<close>

definition run_api :: "action list \<Rightarrow> scheduler \<Rightarrow> scheduler" where
  "run_api as s = final (exec_actions as s)"

definition prog_abc :: program where
  "prog_abc = \<lparr>call_body = (\<lambda>k. if k = 0 then [ScheduleMicrotask (Callback 2)] else []),
               update_body = (\<lambda>_. [])\<rparr>"

definition state_ab :: scheduler where
  "state_ab = run_api [ScheduleMicrotask (Callback 0), ScheduleMicrotask (Callback 1)] new_scheduler"

definition prog_idle :: program where
  "prog_idle = \<lparr>call_body = (\<lambda>_. []), update_body = (\<lambda>_. [])\<rparr>"

definition state_macro :: scheduler where
  "state_macro = run_api [ScheduleMacrotask (Callback 0)] new_scheduler"

definition state_frame :: scheduler where
  "state_frame = run_api [OnNextFrame (Write (Callback 0) None), OnNextFrame (Read (Callback 1))] new_scheduler"

definition flush_events :: "scheduler \<Rightarrow> result option \<Rightarrow> event list" where
  "flush_events s r = (case r of Some res \<Rightarrow> new_events s (final res) | None \<Rightarrow> [])"

fun nextFrame_calls :: "nat \<Rightarrow> scheduler \<Rightarrow> fid list \<times> scheduler" where
  "nextFrame_calls 0 s = ([], s)"
| "nextFrame_calls (Suc k) s =
     (let (f, s1) = nextFrame s; (fs, s2) = nextFrame_calls k s1 in (f # fs, s2))"

definition prog_throw :: program where
  "prog_throw = \<lparr>call_body = (\<lambda>k. if k = 0 then [Throw] else []), update_body = (\<lambda>_. [])\<rparr>"

definition state_throw :: scheduler where
  "state_throw = run_api [OnNextFrame (Read (Callback 0))] new_scheduler"

text \<open>The loop that ran the task iterates an array that a scheduling call can still append
  to.\<close>

definition iterates_live :: "event \<Rightarrow> bool" where
  "iterates_live e \<longleftrightarrow> ev_array e \<in> set (ev_live e)"

definition prog_write_again :: program where
  "prog_write_again =
     \<lparr>call_body = (\<lambda>k. if k = 0 then [Once 7 (OnCurrentFrame (Write (Callback 1) None))] else []),
      update_body = (\<lambda>_. [])\<rparr>"

definition state_write :: scheduler where
  "state_write = run_api [OnNextFrame (Write (Callback 0) None)] new_scheduler"

definition prog_after_again :: program where
  "prog_after_again =
     \<lparr>call_body = (\<lambda>k. if k = 0 then [Once 7 (OnCurrentFrame (After (Callback 1)))] else []),
      update_body = (\<lambda>_. [])\<rparr>"

definition state_after :: scheduler where
  "state_after = run_api [OnNextFrame (After (Callback 0))] new_scheduler"

text \<open>No array is shared between two fields or slots, every array in use has been
  allocated, and the two frames are two objects.\<close>

definition well_formed :: "scheduler \<Rightarrow> bool" where
  "well_formed s \<longleftrightarrow>
     distinct (live_refs s) \<and> (\<forall>r \<in> set (live_refs s). r < fresh s) \<and>
     cur_frame s \<noteq> next_frame s"

text \<open>An allocated array that no field or slot refers to.\<close>

definition detached :: "ref \<Rightarrow> scheduler \<Rightarrow> bool" where
  "detached r s \<longleftrightarrow> r < fresh s \<and> r \<notin> set (live_refs s)"

definition heap_ok :: "scheduler \<Rightarrow> scheduler \<Rightarrow> bool" where
  "heap_ok s s' \<longleftrightarrow>
     (well_formed s \<longrightarrow>
        well_formed s' \<and> (\<forall>r. detached r s \<longrightarrow> detached r s' \<and> arrays s' r = arrays s r))"

text \<open>The macrotask queue holds a task exactly when its PENDING bit is set.\<close>

definition macro_armed :: "scheduler \<Rightarrow> bool" where
  "macro_armed s \<longleftrightarrow>
     (arrays s (macrotasks s) = []) = (flags s AND MACROTASK_PENDING = 0)"

definition pending_macrotasks :: "scheduler \<Rightarrow> task list" where
  "pending_macrotasks s = arrays s (macrotasks s)"

definition pending_microtasks :: "scheduler \<Rightarrow> task list" where
  "pending_microtasks s = arrays s (microtasks s)"

definition prog_macro :: program where
  "prog_macro = \<lparr>call_body = (\<lambda>k. if k = 0 then [ScheduleMacrotask (Callback 1)] else []),
                 update_body = (\<lambda>_. [])\<rparr>"

definition macro_inv :: "scheduler \<Rightarrow> scheduler \<Rightarrow> bool" where
  "macro_inv s s' \<longleftrightarrow>
     (well_formed s \<and> macro_armed s \<longrightarrow> well_formed s' \<and> macro_armed s')"

text \<open>The tasks run in wave (or round) \<open>k\<close>, in the order they ran.\<close>

definition wave :: "event list \<Rightarrow> nat \<Rightarrow> task list" where
  "wave evs k = map ev_task (filter (\<lambda>e. ev_round e = k) evs)"

definition queue_rel :: "scheduler \<Rightarrow> scheduler \<Rightarrow> bool" where
  "queue_rel s s' \<longleftrightarrow>
     microtasks s' = microtasks s \<and>
     (\<exists>evs. trace s' = trace s @ evs \<and> (\<forall>e \<in> set evs. hd (ev_live e) = microtasks s))"

text \<open>The rank at which a priority write task ran, and the tasks run at rank \<open>k\<close>, in the
  order they ran.\<close>

definition prio_rank :: "event \<Rightarrow> nat" where
  "prio_rank e = (case ev_phase e of PrioWritePhase k \<Rightarrow> k | _ \<Rightarrow> 0)"

definition at_rank :: "event list \<Rightarrow> nat \<Rightarrow> task list" where
  "at_rank evs k = map ev_task (filter (\<lambda>e. ev_phase e = PrioWritePhase k) evs)"

text \<open>The slots of frame \<open>f\<close> that hold a group keep it.\<close>

definition slots_rel :: "fid \<Rightarrow> scheduler \<Rightarrow> scheduler \<Rightarrow> bool" where
  "slots_rel f s s' \<longleftrightarrow>
     (\<forall>k g. k < length (writeTaskGroups (frames s f)) \<and> writeTaskGroups (frames s f) ! k = Some g
        \<longrightarrow> k < length (writeTaskGroups (frames s' f)) \<and> writeTaskGroups (frames s' f) ! k = Some g)"

text \<open>Arrays only grow: a task is appended at the end, nothing is removed.\<close>

definition grows :: "scheduler \<Rightarrow> scheduler \<Rightarrow> bool" where
  "grows s s' \<longleftrightarrow>
     fresh s \<le> fresh s' \<and> (\<forall>r < fresh s. \<exists>ys. arrays s' r = arrays s r @ ys)"

definition prog_prio :: program where
  "prog_prio = \<lparr>call_body = (\<lambda>_. []), update_body = (\<lambda>_. [])\<rparr>"

definition state_prio :: scheduler where
  "state_prio = frame_start (run_api [OnNextFrame (Write (Callback 1) (Some 2)),
       OnNextFrame (Write (Component 0) (Some 0))] new_scheduler)"

text \<open>The write and read phases of a frame flush, and the place of a task in the
  alternation: the writes of round \<open>k\<close> at \<open>2 k\<close>, its reads at \<open>2 k + 1\<close>.\<close>

definition wr_phase :: "phase \<Rightarrow> bool" where
  "wr_phase ph \<longleftrightarrow> is_write_phase ph \<or> ph = ReadPhase"

definition stage_of :: "phase \<Rightarrow> nat \<Rightarrow> nat" where
  "stage_of ph rnd = 2 * rnd + (if ph = ReadPhase then 1 else 0)"

definition stage :: "event \<Rightarrow> nat" where
  "stage e = stage_of (ev_phase e) (ev_round e)"

text \<open>A relation kept by the steps of the frame loops: by a task run in a phase and round
  that \<open>A\<close> admits, by clearing a frame flag of \<open>M\<close>, by \<^verbatim>\<open>frame.readTasks = null\<close> when
  \<open>READ\<close> is in \<open>M\<close>, and by \<^verbatim>\<open>groups[i] = null\<close>.\<close>

definition closed_on ::
  "program \<Rightarrow> (phase \<Rightarrow> nat \<Rightarrow> bool) \<Rightarrow> 32 word set \<Rightarrow> (scheduler \<Rightarrow> scheduler \<Rightarrow> bool) \<Rightarrow> bool" where
  "closed_on P A M R \<longleftrightarrow>
     (\<forall>s. R s s) \<and> (\<forall>a b c. R a b \<longrightarrow> R b c \<longrightarrow> R a c) \<and>
     (\<forall>ph rnd r t s. A ph rnd \<longrightarrow> R s (final (invoke P ph rnd r t s))) \<and>
     (\<forall>f m s. m \<in> M \<longrightarrow> R s (clear_frame_flag f m s)) \<and>
     (\<forall>f s. READ \<in> M \<longrightarrow> R s (upd_frame f (\<lambda>fr. fr\<lparr>readTasks := None\<rparr>) s)) \<and>
     (\<forall>f i s. R s (upd_frame f (\<lambda>fr. fr\<lparr>writeTaskGroups := (writeTaskGroups fr)[i := None]\<rparr>) s))"

text \<open>The trace is extended by tasks run in the phases and rounds that \<open>A\<close> admits.\<close>

definition emits :: "(phase \<Rightarrow> nat \<Rightarrow> bool) \<Rightarrow> scheduler \<Rightarrow> scheduler \<Rightarrow> bool" where
  "emits A s s' \<longleftrightarrow>
     trace s' = trace s @ new_events s s' \<and>
     (\<forall>e \<in> set (new_events s s'). A (ev_phase e) (ev_round e))"

text \<open>The trace is extended by write and read tasks, in the order of the alternation, from
  stage \<open>k\<close> on.\<close>

definition ordered :: "nat \<Rightarrow> scheduler \<Rightarrow> scheduler \<Rightarrow> bool" where
  "ordered k s s' \<longleftrightarrow>
     trace s' = trace s @ new_events s s' \<and>
     (\<forall>e \<in> set (new_events s s'). wr_phase (ev_phase e) \<and> k \<le> stage e) \<and>
     sorted (map stage (new_events s s'))"

text \<open>The plain write task \<open>w\<close> waits in frame \<open>f\<close>: it is in \<^verbatim>\<open>frame.writeTasks\<close> and the
  \<open>WRITE\<close> flag of the frame is set.\<close>

definition pending_write :: "fid \<Rightarrow> task \<Rightarrow> scheduler \<Rightarrow> bool" where
  "pending_write f w s \<longleftrightarrow>
     frame_flag_set f WRITE s \<and>
     (case writeTasks (frames s f) of
        None \<Rightarrow> False
      | Some r \<Rightarrow> r < fresh s \<and> w \<in> set (arrays s r))"

definition keeps :: "fid \<Rightarrow> task \<Rightarrow> scheduler \<Rightarrow> scheduler \<Rightarrow> bool" where
  "keeps f w s s' \<longleftrightarrow> (pending_write f w s \<longrightarrow> pending_write f w s')"

definition wkeep :: "fid \<Rightarrow> scheduler \<Rightarrow> scheduler \<Rightarrow> bool" where
  "wkeep f s s' \<longleftrightarrow>
     (frame_flag_set f WRITE s \<longrightarrow> frame_flag_set f WRITE s') \<and>
     (\<forall>r. writeTasks (frames s f) = Some r \<longrightarrow> writeTasks (frames s' f) = Some r)"

text \<open>The body of the task of event \<open>e\<close> calls \<^verbatim>\<open>currentFrame().write(w)\<close>.\<close>

definition schedules_write :: "program \<Rightarrow> task \<Rightarrow> event \<Rightarrow> bool" where
  "schedules_write P w e =
     (case ev_task e of
        Callback c \<Rightarrow> OnCurrentFrame (Write w None) \<in> set (call_body P c)
      | Component c \<Rightarrow> False)"

text \<open>Neither a write task nor a read task waits in frame \<open>f\<close>.\<close>

definition quiet :: "fid \<Rightarrow> scheduler \<Rightarrow> bool" where
  "quiet f s \<longleftrightarrow> \<not> frame_flag_set f WRITE_ANY s \<and> \<not> frame_flag_set f READ s"

text \<open>A write task, a read task that schedules the plain write task 2 into the frame being
  flushed, and an after task.\<close>

definition prog_alt :: program where
  "prog_alt =
     \<lparr>call_body = (\<lambda>k. if k = 1 then [OnCurrentFrame (Write (Callback 2) None)] else []),
      update_body = (\<lambda>_. [])\<rparr>"

definition state_alt :: scheduler where
  "state_alt = run_api [OnNextFrame (Write (Callback 0) None), OnNextFrame (Read (Callback 1)),
       OnNextFrame (After (Callback 3))] new_scheduler"

text \<open>The macrotasks that the calls of a task body schedule, in the order of the calls, given
  the private booleans of the \<open>Once\<close> closures that are set before; with the booleans that
  are set afterwards. A body that raises an error is not described: it does not return.\<close>

fun macro_calls :: "action \<Rightarrow> nat set \<Rightarrow> task list \<times> nat set" where
  "macro_calls (ScheduleMicrotask cb) F = ([], F)"
| "macro_calls (ScheduleMacrotask cb) F = ([cb], F)"
| "macro_calls (OnNextFrame op) F = ([], F)"
| "macro_calls (OnCurrentFrame op) F = ([], F)"
| "macro_calls Throw F = ([], F)"
| "macro_calls (Once k a) F = (if k \<in> F then ([], F) else macro_calls a (insert k F))"

fun macro_calls_body :: "action list \<Rightarrow> nat set \<Rightarrow> task list \<times> nat set" where
  "macro_calls_body [] F = ([], F)"
| "macro_calls_body (a # as) F =
     (let (xs, F1) = macro_calls a F; (ys, F2) = macro_calls_body as F1 in (xs @ ys, F2))"

text \<open>The same for a macrotask, and for a batch of macrotasks run one after the other. A
  component in the batch is not callable; the flush that meets one does not return.\<close>

definition macro_calls_task :: "program \<Rightarrow> task \<Rightarrow> nat set \<Rightarrow> task list \<times> nat set" where
  "macro_calls_task P t F =
     (case t of Callback c \<Rightarrow> macro_calls_body (call_body P c) F | Component c \<Rightarrow> ([], F))"

fun macro_calls_batch :: "program \<Rightarrow> task list \<Rightarrow> nat set \<Rightarrow> task list \<times> nat set" where
  "macro_calls_batch P [] F = ([], F)"
| "macro_calls_batch P (t # ts) F =
     (let (xs, F1) = macro_calls_task P t F; (ys, F2) = macro_calls_batch P ts F1
      in (xs @ ys, F2))"

text \<open>The macrotasks scheduled by the tasks that are in the macrotask queue of \<open>s\<close>, when they
  are run.\<close>

definition scheduled_macrotasks :: "program \<Rightarrow> scheduler \<Rightarrow> task list" where
  "scheduled_macrotasks P s = fst (macro_calls_batch P (arrays s (macrotasks s)) (fired s))"

text \<open>A priority write task of rank 1 that arms rank 0 with task 0 and rank 2 with task 1
  in the frame being flushed.\<close>

definition prog_rank :: program where
  "prog_rank =
     \<lparr>call_body = (\<lambda>k. if k = 2 then [OnCurrentFrame (Write (Callback 0) (Some 0)),
                                      OnCurrentFrame (Write (Callback 1) (Some 2))] else []),
      update_body = (\<lambda>_. [])\<rparr>"

definition state_rank :: scheduler where
  "state_rank = run_api [OnNextFrame (Write (Callback 2) (Some 1))] new_scheduler"

section \<open>Basic facts\<close>

text \<open>The comparisons of \<open>clock_tick\<close>, evaluated on binary numerals.\<close>

lemma clock_tick_code [code]:
  "clock_tick c =
     (if int c < 2 ^ 53 then c + 1 else if int c < 2 ^ 54 \<and> odd (c div 2) then c + 2 else c)"
proof -
  have "(int c < 2 ^ 53) = (c < 2 ^ 53)" "(int c < 2 ^ 54) = (c < 2 ^ 54)"
    by simp_all
  then show ?thesis by (simp only: clock_tick_def)
qed

lemma final_simps [simp]: "final (Inl (e, s)) = s" "final (Inr s) = s"
  by (simp_all add: final_def)

lemma and_then_Some:
  "and_then r k = Some res \<longleftrightarrow>
     (\<exists>e. r = Some (Inl e) \<and> res = Inl e) \<or> (\<exists>s. r = Some (Inr s) \<and> k s = Some res)"
  by (auto simp: and_then_def split: option.splits sum.splits)

lemma and_then_assoc:
  "and_then (and_then r k) h = and_then r (\<lambda>s. and_then (k s) h)"
  by (simp add: and_then_def split: option.splits sum.splits)

lemma and_then_simps [simp]:
  "and_then None k = None"
  "and_then (Some (Inl e)) k = Some (Inl e)"
  "and_then (Some (Inr s)) k = k s"
  by (simp_all add: and_then_def)

lemma or_and_disjoint:
  assumes "(m::32 word) AND p = 0"
  shows "(x OR p) AND m = x AND m"
proof -
  have "(x OR p) AND m = (x AND m) OR (p AND m)"
    by (rule bit.conj_disj_distrib2)
  moreover have "p AND m = 0"
    using assms by (simp add: and.commute)
  ultimately show ?thesis by simp
qed

lemma arm_rel_refl [simp]: "arm_rel p cnt s s"
  by (simp add: arm_rel_def)

lemma arm_rel_trans: "arm_rel p cnt a b \<Longrightarrow> arm_rel p cnt b c \<Longrightarrow> arm_rel p cnt a c"
  unfolding arm_rel_def by auto

lemma regs_rel_refl [simp]: "regs_rel s s"
  by (simp add: regs_rel_def)

lemma regs_rel_trans: "regs_rel a b \<Longrightarrow> regs_rel b c \<Longrightarrow> regs_rel a c"
  unfolding regs_rel_def by (blast intro: arm_rel_trans)

lemma regs_rel_same:
  "flags s' = flags s \<Longrightarrow> microtask_requests s' = microtask_requests s \<Longrightarrow>
   macrotask_requests s' = macrotask_requests s \<Longrightarrow>
   animation_requests s' = animation_requests s \<Longrightarrow> regs_rel s s'"
  by (simp add: regs_rel_def arm_rel_def)

lemma pending_nonzero [simp]:
  "MICROTASK_PENDING \<noteq> 0" "MACROTASK_PENDING \<noteq> 0" "FRAMETASK_PENDING \<noteq> 0"
  by (simp_all add: MICROTASK_PENDING_def MACROTASK_PENDING_def FRAMETASK_PENDING_def)

lemma pending_bits [simp]:
  "(x OR MICROTASK_PENDING) AND MICROTASK_PENDING \<noteq> 0"
  "(x OR MACROTASK_PENDING) AND MACROTASK_PENDING \<noteq> 0"
  "(x OR FRAMETASK_PENDING) AND FRAMETASK_PENDING \<noteq> 0"
  "(x OR MICROTASK_PENDING) AND MACROTASK_PENDING = x AND MACROTASK_PENDING"
  "(x OR MICROTASK_PENDING) AND FRAMETASK_PENDING = x AND FRAMETASK_PENDING"
  "(x OR MACROTASK_PENDING) AND MICROTASK_PENDING = x AND MICROTASK_PENDING"
  "(x OR MACROTASK_PENDING) AND FRAMETASK_PENDING = x AND FRAMETASK_PENDING"
  "(x OR FRAMETASK_PENDING) AND MICROTASK_PENDING = x AND MICROTASK_PENDING"
  "(x OR FRAMETASK_PENDING) AND MACROTASK_PENDING = x AND MACROTASK_PENDING"
  by (simp_all add: MICROTASK_PENDING_def MACROTASK_PENDING_def FRAMETASK_PENDING_def
      bit.conj_disj_distrib2)

lemma api_rel_refl [simp]: "api_rel s s"
  by (simp add: api_rel_def)

lemma api_rel_trans: "api_rel a b \<Longrightarrow> api_rel b c \<Longrightarrow> api_rel a c"
  by (auto simp: api_rel_def intro: regs_rel_trans)

lemma api_rel_push [simp]: "api_rel s (push r cb s)"
  by (simp add: api_rel_def push_def regs_rel_same)

lemma api_rel_upd_frame [simp]: "api_rel s (upd_frame f g s)"
  by (simp add: api_rel_def upd_frame_def regs_rel_same)

lemma api_rel_new_array [simp]: "api_rel s (snd (new_array s))"
  by (simp add: api_rel_def new_array_def regs_rel_same)

lemma api_rel_frame_push [simp]: "api_rel s (frame_push f gt st cb s)"
  by (simp add: frame_push_def api_rel_def push_def upd_frame_def new_array_def regs_rel_same
      split: option.splits)

lemma api_rel_set_frame_flag [simp]: "api_rel s (set_frame_flag f m s)"
  by (simp add: set_frame_flag_def)

lemma api_rel_apply_frame_op: "api_rel s s1 \<Longrightarrow> api_rel s (apply_frame_op f op s1)"
  by (cases op)
     (auto simp: frame_write_def frame_read_def frame_after_def split: option.splits
        intro: api_rel_trans [OF _ api_rel_frame_push] api_rel_trans [OF _ api_rel_set_frame_flag]
               api_rel_trans [OF _ api_rel_upd_frame])

lemma api_rel_scheduleMicrotask [simp]: "api_rel s (scheduleMicrotask cb s)"
  by (simp add: scheduleMicrotask_def api_rel_def push_def Let_def untouched_def or_and_disjoint
      regs_rel_def arm_rel_def)

lemma api_rel_scheduleMacrotask [simp]: "api_rel s (scheduleMacrotask cb s)"
  by (simp add: scheduleMacrotask_def api_rel_def push_def Let_def untouched_def or_and_disjoint
      regs_rel_def arm_rel_def)

lemma api_rel_nextFrame [simp]: "api_rel s (snd (nextFrame s))"
  by (simp add: nextFrame_def api_rel_def untouched_def or_and_disjoint regs_rel_def arm_rel_def)

text \<open>A task body changes neither the clock nor the trace; of the flag register it can
  only set PENDING bits.\<close>

lemma api_rel_fired [simp]: "api_rel s (s\<lparr>fired := F\<rparr>)"
  by (simp add: api_rel_def regs_rel_same)

lemma api_rel_exec_action: "api_rel s (final (exec_action a s))"
proof (induction a arbitrary: s)
  case (OnNextFrame op)
  have "api_rel s (apply_frame_op (fst (nextFrame s)) op (snd (nextFrame s)))"
    by (rule api_rel_apply_frame_op) simp
  then show ?case by (simp add: case_prod_unfold Let_def)
next
  case (OnCurrentFrame op)
  show ?case by (simp add: api_rel_apply_frame_op)
next
  case (Once k a)
  show ?case
    using api_rel_trans [OF api_rel_fired Once.IH] by simp
qed simp_all

lemma api_rel_exec_actions: "api_rel s (final (exec_actions as s))"
proof (induction as arbitrary: s)
  case Nil
  show ?case by simp
next
  case (Cons a as)
  show ?case
  proof (cases "exec_action a s")
    case (Inl e)
    with api_rel_exec_action [of s a] show ?thesis by simp
  next
    case (Inr s1)
    with api_rel_exec_action [of s a] Cons.IH [of s1] show ?thesis
      by (auto intro: api_rel_trans)
  qed
qed

lemma stable_refl [simp]: "stable s s"
  by (simp add: stable_def)

lemma stable_trans: "stable a b \<Longrightarrow> stable b c \<Longrightarrow> stable a c"
  by (auto simp: stable_def intro: regs_rel_trans)

lemma api_rel_stable: "api_rel s s' \<Longrightarrow> stable s s'"
  by (simp add: api_rel_def stable_def)

lemma stable_log_event [simp]: "stable s (log_event ph rnd r t s)"
  by (simp add: stable_def log_event_def regs_rel_same)

lemma stable_invoke: "stable s (final (invoke P ph rnd r t s))"
  by (auto simp: invoke_def split: task.splits
      intro!: stable_trans [OF stable_log_event api_rel_stable [OF api_rel_exec_actions]])

lemma stable_upd_frame [simp]: "stable s (upd_frame f g s)"
  by (simp add: stable_def upd_frame_def regs_rel_same)

lemma stable_detach_microtasks [simp]:
  "stable s ((snd (new_array s))\<lparr>microtasks := r\<rparr>)"
  by (simp add: stable_def new_array_def regs_rel_same)

lemma stable_detach_macrotasks [simp]:
  "stable s ((snd (new_array s))\<lparr>macrotasks := r\<rparr>)"
  by (simp add: stable_def new_array_def regs_rel_same)

subsection \<open>Relations kept by the loops\<close>

lemma run_tasks_rel:
  assumes R_refl: "\<And>s. R s s" and R_trans: "\<And>a b c. R a b \<Longrightarrow> R b c \<Longrightarrow> R a c"
    and R_invoke: "\<And>t s. R s (final (invoke P ph rnd r t s))"
  shows "run_tasks P n ph rnd r i s = Some res \<Longrightarrow> R s (final res)"
proof (induction n arbitrary: i s res)
  case 0
  then show ?case by simp
next
  case (Suc n)
  show ?case
  proof (cases "i < length (arrays s r)")
    case False
    with Suc.prems show ?thesis by (auto simp: R_refl)
  next
    case True
    show ?thesis
    proof (cases "invoke P ph rnd r (arrays s r ! i) s")
      case (Inl e)
      with True Suc.prems R_invoke [of s "arrays s r ! i"] show ?thesis by auto
    next
      case (Inr s1)
      with True Suc.prems have "run_tasks P n ph rnd r (Suc i) s1 = Some res" by simp
      then have "R s1 (final res)" by (rule Suc.IH)
      moreover from Inr R_invoke [of s "arrays s r ! i"] have "R s s1" by simp
      ultimately show ?thesis by (rule R_trans [rotated])
    qed
  qed
qed

lemma stable_run_tasks: "run_tasks P n ph rnd r i s = Some res \<Longrightarrow> stable s (final res)"
  by (rule run_tasks_rel [where R = stable]) (auto intro: stable_trans stable_invoke)

lemma closed_relD:
  assumes "closed_rel P R"
  shows "R s s" and "R a b \<Longrightarrow> R b c \<Longrightarrow> R a c"
    and "R s (final (invoke P ph rnd r t s))" and "R s (upd_frame f g s)"
  using assms unfolding closed_rel_def by blast+

lemma and_then_rel:
  assumes trans: "\<And>a b c. R a b \<Longrightarrow> R b c \<Longrightarrow> R a c"
    and first: "\<And>res1. r = Some res1 \<Longrightarrow> R s (final res1)"
    and rest: "\<And>s1 res2. r = Some (Inr s1) \<Longrightarrow> k s1 = Some res2 \<Longrightarrow> R s1 (final res2)"
    and run: "and_then r k = Some res"
  shows "R s (final res)"
proof -
  from run consider (err) e where "r = Some (Inl e)" "res = Inl e"
    | (ok) s1 where "r = Some (Inr s1)" "k s1 = Some res"
    by (auto simp: and_then_Some)
  then show ?thesis
  proof cases
    case err
    with first [of "Inl e"] show ?thesis by simp
  next
    case ok
    from first [OF ok(1)] rest [OF ok] show ?thesis by (auto intro: trans)
  qed
qed

lemma closed_run_tasks:
  "closed_rel P R \<Longrightarrow> run_tasks P n ph rnd r i s = Some res \<Longrightarrow> R s (final res)"
  by (rule run_tasks_rel [where R = R]) (auto dest: closed_relD)

lemma closed_run_groups:
  assumes cl: "closed_rel P R"
  shows "run_groups P n rnd f i s = Some res \<Longrightarrow> R s (final res)"
proof (induction n arbitrary: i s res)
  case 0
  then show ?case by simp
next
  case (Suc n)
  let ?gs = "writeTaskGroups (frames s f)"
  show ?case
  proof (cases "i < length ?gs")
    case False
    with Suc.prems show ?thesis by (auto simp: closed_relD(1) [OF cl])
  next
    case True
    show ?thesis
    proof (cases "?gs ! i")
      case None
      with True Suc.prems Suc.IH show ?thesis by simp
    next
      case (Some g)
      let ?s1 = "upd_frame f (\<lambda>fr. fr\<lparr>writeTaskGroups := (writeTaskGroups fr)[i := None]\<rparr>) s"
      from True Some Suc.prems
      have run: "and_then (run_tasks P n (PrioWritePhase i) rnd g 0 ?s1)
                   (run_groups P n rnd f (Suc i)) = Some res"
        by simp
      have "R ?s1 (final res)"
        using closed_relD(2) [OF cl] _ _ run
      proof (rule and_then_rel)
        fix res1 assume "run_tasks P n (PrioWritePhase i) rnd g 0 ?s1 = Some res1"
        then show "R ?s1 (final res1)" by (rule closed_run_tasks [OF cl])
      next
        fix s1 res2 assume "run_groups P n rnd f (Suc i) s1 = Some res2"
        then show "R s1 (final res2)" by (rule Suc.IH)
      qed
      with closed_relD(4) [OF cl, of s] show ?thesis
        by (blast intro: closed_relD(2) [OF cl])
    qed
  qed
qed

lemma closed_prio_write_step:
  assumes cl: "closed_rel P R"
  shows "prio_write_step P n rnd f s = Some res \<Longrightarrow> R s (final res)"
  using closed_run_groups [OF cl, of n rnd f 0 "clear_frame_flag f WRITE_PRIO s" res]
    closed_relD(4) [OF cl, of s f]
  by (auto simp: prio_write_step_def clear_frame_flag_def closed_relD(1) [OF cl]
      split: if_splits intro: closed_relD(2) [OF cl])

lemma closed_plain_write_step:
  assumes cl: "closed_rel P R"
  shows "plain_write_step P n rnd f s = Some res \<Longrightarrow> R s (final res)"
  using closed_relD(4) [OF cl, of s f]
  by (auto simp: plain_write_step_def clear_frame_flag_def closed_relD(1) [OF cl] Let_def
      split: if_splits option.splits
      intro: closed_relD(2) [OF cl] dest!: closed_run_tasks [OF cl])

lemma closed_write_loop:
  assumes cl: "closed_rel P R"
  shows "write_loop P n rnd f s = Some res \<Longrightarrow> R s (final res)"
proof (induction n arbitrary: s res)
  case 0
  then show ?case by simp
next
  case (Suc n)
  show ?case
  proof (cases "frame_flag_set f WRITE_ANY s")
    case False
    with Suc.prems show ?thesis by (auto simp: closed_relD(1) [OF cl])
  next
    case True
    with Suc.prems
    have run: "and_then (prio_write_step P n rnd f s)
       (\<lambda>s1. and_then (plain_write_step P n rnd f s1) (write_loop P n rnd f)) = Some res"
      by simp
    show ?thesis
      using closed_relD(2) [OF cl] _ _ run
    proof (rule and_then_rel)
      fix res1 assume "prio_write_step P n rnd f s = Some res1"
      then show "R s (final res1)" by (rule closed_prio_write_step [OF cl])
    next
      fix s1 res2
      assume run2: "and_then (plain_write_step P n rnd f s1) (write_loop P n rnd f) = Some res2"
      show "R s1 (final res2)"
        using closed_relD(2) [OF cl] _ _ run2
      proof (rule and_then_rel)
        fix res1 assume "plain_write_step P n rnd f s1 = Some res1"
        then show "R s1 (final res1)" by (rule closed_plain_write_step [OF cl])
      next
        fix s2 res3 assume "write_loop P n rnd f s2 = Some res3"
        then show "R s2 (final res3)" by (rule Suc.IH)
      qed
    qed
  qed
qed

lemma closed_read_loop:
  assumes cl: "closed_rel P R"
  shows "read_loop P n rnd f s = Some res \<Longrightarrow> R s (final res)"
proof (induction n arbitrary: s res)
  case 0
  then show ?case by simp
next
  case (Suc n)
  show ?case
  proof (cases "frame_flag_set f READ s")
    case False
    with Suc.prems show ?thesis by (auto simp: closed_relD(1) [OF cl])
  next
    case True
    let ?s1 = "clear_frame_flag f READ s"
    let ?s2 = "upd_frame f (\<lambda>fr. fr\<lparr>readTasks := None\<rparr>) ?s1"
    have R2: "R s ?s2"
      unfolding clear_frame_flag_def
      by (rule closed_relD(2) [OF cl]) (rule closed_relD(4) [OF cl])+
    show ?thesis
    proof (cases "readTasks (frames ?s1 f)")
      case None
      with True Suc.prems R2 show ?thesis by (auto simp: Let_def)
    next
      case (Some g)
      with True Suc.prems
      have run: "and_then (run_tasks P n ReadPhase rnd g 0 ?s2) (read_loop P n rnd f) = Some res"
        by (simp add: Let_def)
      have "R ?s2 (final res)"
        using closed_relD(2) [OF cl] _ _ run
      proof (rule and_then_rel)
        fix res1 assume "run_tasks P n ReadPhase rnd g 0 ?s2 = Some res1"
        then show "R ?s2 (final res1)" by (rule closed_run_tasks [OF cl])
      next
        fix s1 res2 assume "read_loop P n rnd f s1 = Some res2"
        then show "R s1 (final res2)" by (rule Suc.IH)
      qed
      with R2 show ?thesis by (rule closed_relD(2) [OF cl])
    qed
  qed
qed

lemma closed_write_read_loop:
  assumes cl: "closed_rel P R"
  shows "write_read_loop P n rnd f s = Some res \<Longrightarrow> R s (final res)"
proof (induction n arbitrary: rnd s res)
  case 0
  then show ?case by simp
next
  case (Suc n)
  from Suc.prems
  have run: "and_then (write_loop P n rnd f s)
       (\<lambda>s1. and_then (read_loop P n rnd f s1)
          (\<lambda>s2. if frame_flag_set f WRITE_ANY s2
                then write_read_loop P n (Suc rnd) f s2
                else Some (Inr s2))) = Some res"
    by simp
  show ?case
    using closed_relD(2) [OF cl] _ _ run
  proof (rule and_then_rel)
    fix res1 assume "write_loop P n rnd f s = Some res1"
    then show "R s (final res1)" by (rule closed_write_loop [OF cl])
  next
    fix s1 res2
    assume run2: "and_then (read_loop P n rnd f s1)
          (\<lambda>s2. if frame_flag_set f WRITE_ANY s2
                then write_read_loop P n (Suc rnd) f s2
                else Some (Inr s2)) = Some res2"
    show "R s1 (final res2)"
      using closed_relD(2) [OF cl] _ _ run2
    proof (rule and_then_rel)
      fix res1 assume "read_loop P n rnd f s1 = Some res1"
      then show "R s1 (final res1)" by (rule closed_read_loop [OF cl])
    next
      fix s2 res3
      assume "(if frame_flag_set f WRITE_ANY s2
                then write_read_loop P n (Suc rnd) f s2
                else Some (Inr s2)) = Some res3"
      then show "R s2 (final res3)"
        using Suc.IH [of "Suc rnd" s2] closed_relD(1) [OF cl, of s2]
        by (auto split: if_splits)
    qed
  qed
qed

lemma closed_after_loop:
  assumes cl: "closed_rel P R"
  shows "after_loop P n rnd f s = Some res \<Longrightarrow> R s (final res)"
proof (induction n arbitrary: rnd s res)
  case 0
  then show ?case by simp
next
  case (Suc n)
  show ?case
  proof (cases "frame_flag_set f AFTER s")
    case False
    with Suc.prems show ?thesis by (auto simp: closed_relD(1) [OF cl])
  next
    case True
    let ?s1 = "clear_frame_flag f AFTER s"
    have R1: "R s ?s1"
      unfolding clear_frame_flag_def by (rule closed_relD(4) [OF cl])
    show ?thesis
    proof (cases "afterTasks (frames ?s1 f)")
      case None
      with True Suc.prems R1 show ?thesis by (auto simp: Let_def)
    next
      case (Some g)
      with True Suc.prems
      have run: "and_then (run_tasks P n AfterPhase rnd g 0 ?s1) (after_loop P n (Suc rnd) f) = Some res"
        by (simp add: Let_def)
      have "R ?s1 (final res)"
        using closed_relD(2) [OF cl] _ _ run
      proof (rule and_then_rel)
        fix res1 assume "run_tasks P n AfterPhase rnd g 0 ?s1 = Some res1"
        then show "R ?s1 (final res1)" by (rule closed_run_tasks [OF cl])
      next
        fix s1 res2 assume "after_loop P n (Suc rnd) f s1 = Some res2"
        then show "R s1 (final res2)" by (rule Suc.IH)
      qed
      with R1 show ?thesis by (rule closed_relD(2) [OF cl])
    qed
  qed
qed

lemma closed_microtask_waves:
  assumes cl: "closed_rel P R"
    and detach: "\<And>s. R s ((snd (new_array s))\<lparr>microtasks := fst (new_array s)\<rparr>)"
  shows "microtask_waves P n w tasks s = Some res \<Longrightarrow> R s (final res)"
proof (induction n arbitrary: w tasks s res)
  case 0
  then show ?case by simp
next
  case (Suc n)
  show ?case
  proof (cases "length (arrays s tasks) > 0")
    case False
    with Suc.prems show ?thesis by (auto simp: closed_relD(1) [OF cl])
  next
    case True
    let ?s2 = "(snd (new_array s))\<lparr>microtasks := fst (new_array s)\<rparr>"
    from True Suc.prems
    have run: "and_then (run_tasks P n MicroPhase w tasks 0 ?s2)
                 (\<lambda>s3. microtask_waves P n (Suc w) (microtasks s3) s3) = Some res"
      by (simp add: case_prod_unfold Let_def)
    have "R ?s2 (final res)"
      using closed_relD(2) [OF cl] _ _ run
    proof (rule and_then_rel)
      fix res1 assume "run_tasks P n MicroPhase w tasks 0 ?s2 = Some res1"
      then show "R ?s2 (final res1)" by (rule closed_run_tasks [OF cl])
    next
      fix s1 res2 assume "microtask_waves P n (Suc w) (microtasks s1) s1 = Some res2"
      then show "R s1 (final res2)" by (rule Suc.IH)
    qed
    with detach [of s] show ?thesis by (rule closed_relD(2) [OF cl])
  qed
qed

lemma sees_stable: "stable s s' \<Longrightarrow> sees s' e \<Longrightarrow> sees s e"
  by (simp add: sees_def stable_def)

lemma run_rel_refl [simp]: "run_rel s s"
  by (simp add: run_rel_def)

lemma run_rel_trans:
  assumes "run_rel a b" and "run_rel b c"
  shows "run_rel a c"
proof -
  from assms obtain evs1 evs2 where st: "stable a b" "stable b c"
    and tr: "trace b = trace a @ evs1" "trace c = trace b @ evs2"
    and ev: "\<forall>e \<in> set evs1. sees a e" "\<forall>e \<in> set evs2. sees b e"
    unfolding run_rel_def by blast
  from ev(2) st(1) have "\<forall>e \<in> set evs2. sees a e"
    by (blast intro: sees_stable)
  with ev(1) have "\<forall>e \<in> set (evs1 @ evs2). sees a e" by auto
  moreover from tr have "trace c = trace a @ (evs1 @ evs2)" by simp
  ultimately show ?thesis
    unfolding run_rel_def using stable_trans [OF st] by blast
qed

lemma trace_exec_actions [simp]: "trace (final (exec_actions as s)) = trace s"
  using api_rel_exec_actions [of s as] by (simp add: api_rel_def)

lemma run_rel_invoke: "run_rel s (final (invoke P ph rnd r t s))"
  unfolding run_rel_def
  by (auto simp: stable_invoke)
     (auto simp: invoke_def log_event_def sees_def split: task.splits)

lemma run_rel_upd_frame [simp]: "run_rel s (upd_frame f g s)"
  by (simp add: run_rel_def) (simp add: upd_frame_def)

lemma closed_run_rel: "closed_rel P run_rel"
  unfolding closed_rel_def
  by (auto intro: run_rel_trans run_rel_invoke)

subsection \<open>The three flush routines, split into start, loops and end\<close>

lemma microtaskFlush_unfold:
  "microtaskFlush P n s =
     and_then (microtask_waves P n 1 (microtasks s) (micro_start s))
       (\<lambda>s2. Some (Inr (finish (MICROTASK_PENDING OR RUNNING) s2)))"
  by (simp add: microtaskFlush_def micro_start_def finish_def Let_def)

lemma macrotaskFlush_unfold:
  "macrotaskFlush P n s =
     and_then
       (if length (arrays s (macrotasks s)) > 0
        then run_tasks P n MacroPhase 1 (macrotasks s) 0
               ((snd (new_array (macro_start s)))\<lparr>macrotasks := fst (new_array (macro_start s))\<rparr>)
        else Some (Inr (macro_start s)))
       (\<lambda>s4. Some (Inr (finish RUNNING s4)))"
  by (simp add: macrotaskFlush_def macro_start_def finish_def Let_def case_prod_unfold)

lemma handleAnimationFrame_unfold:
  "handleAnimationFrame P n s =
     and_then (write_read_loop P n 1 (next_frame s) (frame_start s))
       (\<lambda>s5. and_then (after_loop P n 1 (next_frame s) s5)
          (\<lambda>s6. Some (Inr (finish RUNNING s6))))"
  by (simp add: handleAnimationFrame_def frame_start_def finish_def Let_def)

lemma flush_resultI:
  assumes "and_then r (\<lambda>s. Some (Inr (finish m s))) = Some res"
    and "\<And>res1. r = Some res1 \<Longrightarrow> R s0 (final res1)"
  shows "flush_result R s0 m res"
proof -
  from assms(1) consider (err) e where "r = Some (Inl e)" "res = Inl e"
    | (ok) s1 where "r = Some (Inr s1)" "res = Inr (finish m s1)"
    by (auto simp: and_then_Some)
  then show ?thesis
  proof cases
    case err
    with assms(2) [of "Inl e"] show ?thesis
      by (cases e) (simp add: flush_result_def)
  next
    case ok
    with assms(2) [of "Inr s1"] show ?thesis
      by (auto simp: flush_result_def)
  qed
qed

lemma microtaskFlush_result:
  assumes cl: "closed_rel P R"
    and detach: "\<And>s. R s ((snd (new_array s))\<lparr>microtasks := fst (new_array s)\<rparr>)"
    and run: "microtaskFlush P n s = Some res"
  shows "flush_result R (micro_start s) (MICROTASK_PENDING OR RUNNING) res"
proof (rule flush_resultI)
  show "and_then (microtask_waves P n 1 (microtasks (micro_start s)) (micro_start s))
      (\<lambda>s2. Some (Inr (finish (MICROTASK_PENDING OR RUNNING) s2))) = Some res"
    using run by (simp add: microtaskFlush_unfold micro_start_def)
next
  fix res1 assume "microtask_waves P n 1 (microtasks (micro_start s)) (micro_start s) = Some res1"
  then show "R (micro_start s) (final res1)"
    by (rule closed_microtask_waves [OF cl detach])
qed

lemma macrotaskFlush_result:
  assumes cl: "closed_rel P R"
    and detach: "\<And>s. R s ((snd (new_array s))\<lparr>macrotasks := fst (new_array s)\<rparr>)"
    and run: "macrotaskFlush P n s = Some res"
  shows "flush_result R (macro_start s) RUNNING res"
proof (rule flush_resultI)
  show "and_then
       (if length (arrays s (macrotasks s)) > 0
        then run_tasks P n MacroPhase 1 (macrotasks s) 0
               ((snd (new_array (macro_start s)))\<lparr>macrotasks := fst (new_array (macro_start s))\<rparr>)
        else Some (Inr (macro_start s)))
       (\<lambda>s4. Some (Inr (finish RUNNING s4))) = Some res"
    using run by (simp add: macrotaskFlush_unfold)
next
  fix res1
  assume "(if length (arrays s (macrotasks s)) > 0
        then run_tasks P n MacroPhase 1 (macrotasks s) 0
               ((snd (new_array (macro_start s)))\<lparr>macrotasks := fst (new_array (macro_start s))\<rparr>)
        else Some (Inr (macro_start s))) = Some res1"
  then show "R (macro_start s) (final res1)"
    using detach [of "macro_start s"] closed_relD(1) [OF cl, of "macro_start s"]
    by (auto split: if_splits dest!: closed_run_tasks [OF cl] intro: closed_relD(2) [OF cl])
qed

lemma handleAnimationFrame_result:
  assumes cl: "closed_rel P R"
    and run: "handleAnimationFrame P n s = Some res"
  shows "flush_result R (frame_start s) RUNNING res"
proof (rule flush_resultI)
  show "and_then (and_then (write_read_loop P n 1 (next_frame s) (frame_start s))
          (after_loop P n 1 (next_frame s)))
       (\<lambda>s6. Some (Inr (finish RUNNING s6))) = Some res"
    using run by (simp add: handleAnimationFrame_unfold and_then_assoc)
next
  fix res1
  assume a: "and_then (write_read_loop P n 1 (next_frame s) (frame_start s))
          (after_loop P n 1 (next_frame s)) = Some res1"
  show "R (frame_start s) (final res1)"
    using closed_relD(2) [OF cl] _ _ a
  proof (rule and_then_rel)
    fix r1 assume "write_read_loop P n 1 (next_frame s) (frame_start s) = Some r1"
    then show "R (frame_start s) (final r1)" by (rule closed_write_read_loop [OF cl])
  next
    fix s1 res2 assume "after_loop P n 1 (next_frame s) s1 = Some res2"
    then show "R s1 (final res2)" by (rule closed_after_loop [OF cl])
  qed
qed

lemma run_rel_detach_microtasks [simp]:
  "run_rel s ((snd (new_array s))\<lparr>microtasks := r\<rparr>)"
  by (simp add: run_rel_def) (simp add: new_array_def)

lemma run_rel_detach_macrotasks [simp]:
  "run_rel s ((snd (new_array s))\<lparr>macrotasks := r\<rparr>)"
  by (simp add: run_rel_def) (simp add: new_array_def)

lemmas microtaskFlush_run_rel = microtaskFlush_result [OF closed_run_rel run_rel_detach_microtasks]
lemmas macrotaskFlush_run_rel = macrotaskFlush_result [OF closed_run_rel run_rel_detach_macrotasks]
lemmas handleAnimationFrame_run_rel = handleAnimationFrame_result [OF closed_run_rel]

lemma completesE: "completes r \<Longrightarrow> (\<And>s. r = Some (Inr s) \<Longrightarrow> thesis) \<Longrightarrow> thesis"
  by (auto simp: completes_def split: option.splits sum.splits)

lemma raisesE: "raises r \<Longrightarrow> (\<And>e s. r = Some (Inl (e, s)) \<Longrightarrow> thesis) \<Longrightarrow> thesis"
  by (auto simp: raises_def split: option.splits sum.splits)

lemma clock_tick_le: "c \<le> clock_tick c"
  by (simp add: clock_tick_def)

lemma clock_tick_exact: "c < 2 ^ 53 \<Longrightarrow> clock_tick c = c + 1"
  by (simp add: clock_tick_def)

lemma flush_result_clock:
  assumes "flush_result run_rel s0 m res"
  shows "clock (final res) = (case res of Inl _ \<Rightarrow> clock s0 | Inr _ \<Rightarrow> clock_tick (clock s0))"
  using assms by (auto simp: flush_result_def run_rel_def stable_def finish_def)

lemma start_clock [simp]:
  "clock (micro_start s) = clock s" "clock (macro_start s) = clock s" "clock (frame_start s) = clock s"
  by (simp_all add: micro_start_def macro_start_def frame_start_def)

lemma flushes_result:
  assumes "flush \<in> flushes" and "flush P n s = Some res"
  obtains s0 m where "flush_result run_rel s0 m res" and "clock s0 = clock s"
    and "trace s0 = trace s" and "flags s0 AND RUNNING = RUNNING"
    and "flags s0 AND domain_running = flags s AND domain_running"
    and "m AND domain_running = 0" and "m AND RUNNING = RUNNING"
proof -
  from assms(1) consider "flush = microtaskFlush" | "flush = macrotaskFlush"
    | "flush = handleAnimationFrame"
    by (auto simp: flushes_def)
  then show thesis
  proof cases
    case 1
    with assms(2) have "flush_result run_rel (micro_start s) (MICROTASK_PENDING OR RUNNING) res"
      by (simp add: microtaskFlush_run_rel)
    then show thesis
      by (rule that)
         (simp_all add: micro_start_def domain_running_def RUNNING_def MICROTASK_PENDING_def
            MICROTASK_RUNNING_def MACROTASK_RUNNING_def FRAMETASK_RUNNING_def
            bit.conj_disj_distrib2)
  next
    case 2
    with assms(2) have "flush_result run_rel (macro_start s) RUNNING res"
      by (simp add: macrotaskFlush_run_rel)
    then show thesis
      by (rule that)
         (simp_all add: macro_start_def domain_running_def RUNNING_def MACROTASK_PENDING_def
            MICROTASK_RUNNING_def MACROTASK_RUNNING_def FRAMETASK_RUNNING_def
            bit.conj_disj_distrib2 word_bw_assocs)
  next
    case 3
    with assms(2) have "flush_result run_rel (frame_start s) RUNNING res"
      by (simp add: handleAnimationFrame_run_rel)
    then show thesis
      by (rule that)
         (simp_all add: frame_start_def domain_running_def RUNNING_def FRAMETASK_PENDING_def
            MICROTASK_RUNNING_def MACROTASK_RUNNING_def FRAMETASK_RUNNING_def
            bit.conj_disj_distrib2 word_bw_assocs)
  qed
qed

section \<open>The clock\<close>

text \<open>
  Claim C3. The clock of a newly constructed scheduler is 1. No flush of any of the three
  domains makes the clock smaller. As long as the clock is below \<open>2^53\<close>, where the
  increment of a double is exact, a flush that returns has advanced the clock by exactly 1,
  whatever the tasks were and however many ran, and a flush that is left by an error has not
  changed it.
\<close>

theorem clock_advances_once_per_flush:
  "clock new_scheduler = 1 \<and>
   (\<forall>flush \<in> flushes. \<forall>res. flush P n s = Some res \<longrightarrow>
      clock s \<le> clock (final res) \<and>
      (clock s < 2 ^ 53 \<longrightarrow>
         clock (final res) = (case res of Inl _ \<Rightarrow> clock s | Inr _ \<Rightarrow> clock s + 1)))"
proof (intro conjI ballI allI impI)
  show "clock new_scheduler = 1" by (simp add: new_scheduler_def)
next
  fix flush res
  assume "flush \<in> flushes" and "flush P n s = Some res"
  then obtain s0 m where "flush_result run_rel s0 m res" and "clock s0 = clock s"
    by (rule flushes_result)
  then have c: "clock (final res) = (case res of Inl _ \<Rightarrow> clock s | Inr _ \<Rightarrow> clock_tick (clock s))"
    using flush_result_clock [of s0 m res] by (simp split: sum.splits)
  then show "clock s \<le> clock (final res)"
    using clock_tick_le [of "clock s"] by (simp split: sum.splits)
  assume "clock s < 2 ^ 53"
  with c show "clock (final res) = (case res of Inl _ \<Rightarrow> clock s | Inr _ \<Rightarrow> clock s + 1)"
    by (simp add: clock_tick_exact split: sum.splits)
qed

theorem clock_advances_once_per_flush_witness:
  "completes (microtaskFlush prog_abc 5 state_ab) \<and>
   map_option (clock \<circ> final) (microtaskFlush prog_abc 5 state_ab) = Some 2 \<and>
   completes (macrotaskFlush prog_idle 5 state_macro) \<and>
   map_option (clock \<circ> final) (macrotaskFlush prog_idle 5 state_macro) = Some 2 \<and>
   completes (handleAnimationFrame prog_idle 5 state_frame) \<and>
   map_option (clock \<circ> final) (handleAnimationFrame prog_idle 5 state_frame) = Some 2"
proof -
  have c: "clock state_ab = 1" "clock state_macro = 1" "clock state_frame = 1"
    by code_simp+
  have 1: "completes (microtaskFlush prog_abc 5 state_ab)" by code_simp
  have 2: "completes (macrotaskFlush prog_idle 5 state_macro)" by code_simp
  have 3: "completes (handleAnimationFrame prog_idle 5 state_frame)" by code_simp
  from 1 obtain s1 where r1: "microtaskFlush prog_abc 5 state_ab = Some (Inr s1)"
    by (rule completesE)
  from 2 obtain s2 where r2: "macrotaskFlush prog_idle 5 state_macro = Some (Inr s2)"
    by (rule completesE)
  from 3 obtain s3 where r3: "handleAnimationFrame prog_idle 5 state_frame = Some (Inr s3)"
    by (rule completesE)
  have "clock s1 = 2"
    using clock_advances_once_per_flush [of prog_abc 5 state_ab] r1 c
    by (simp add: flushes_def)
  moreover have "clock s2 = 2"
    using clock_advances_once_per_flush [of prog_idle 5 state_macro] r2 c
    by (simp add: flushes_def)
  moreover have "clock s3 = 2"
    using clock_advances_once_per_flush [of prog_idle 5 state_frame] r3 c
    by (simp add: flushes_def)
  ultimately show ?thesis
    using 1 2 3 r1 r2 r3 by simp
qed

lemma untouched_running [simp]: "untouched RUNNING" "untouched domain_running"
  by (simp_all add: untouched_def domain_running_def RUNNING_def MICROTASK_PENDING_def
      MACROTASK_PENDING_def FRAMETASK_PENDING_def MICROTASK_RUNNING_def MACROTASK_RUNNING_def
      FRAMETASK_RUNNING_def)

lemma new_events_append: "trace s' = trace s @ evs \<Longrightarrow> new_events s s' = evs"
  by (simp add: new_events_def)

lemma trace_finish [simp]: "trace (finish m s) = trace s"
  by (simp add: finish_def)

lemma new_events_finish [simp]: "new_events s (finish m s') = new_events s s'"
  by (simp add: new_events_def)

lemma new_events_start:
  "trace s0 = trace s \<Longrightarrow> new_events s s' = new_events s0 s'"
  by (simp add: new_events_def)

lemma and_not_disjoint:
  assumes "(m::32 word) AND k = 0"
  shows "(x AND NOT m) AND k = x AND k"
proof (rule bit_eqI)
  fix n
  have "bit (m AND k) n = bit (0::32 word) n" using assms by simp
  then have "\<not> (bit m n \<and> bit k n)" by (simp add: bit_and_iff)
  then show "bit ((x AND NOT m) AND k) n = bit (x AND k) n"
    by (auto simp: bit_and_iff bit_not_iff dest: bit_imp_le_length)
qed

section \<open>The RUNNING bits\<close>

lemma flush_result_running:
  assumes fr: "flush_result run_rel s0 m res"
    and s0: "trace s0 = trace s" "flags s0 AND RUNNING = RUNNING"
      "flags s0 AND domain_running = flags s AND domain_running"
    and m: "m AND domain_running = 0"
  shows "trace (final res) = trace s @ new_events s (final res) \<and>
      (\<forall>e \<in> set (new_events s (final res)).
          ev_flags e AND RUNNING = RUNNING \<and>
          ev_flags e AND domain_running = flags s AND domain_running) \<and>
      flags (final res) AND domain_running = flags s AND domain_running"
proof -
  from fr obtain s' where rr: "run_rel s0 s'" and res: "final res = s' \<or> final res = finish m s'"
    by (auto simp: flush_result_def)
  from rr obtain evs where st: "stable s0 s'" and tr: "trace s' = trace s0 @ evs"
    and ev: "\<forall>e \<in> set evs. sees s0 e"
    by (auto simp: run_rel_def)
  from res tr s0(1) have t: "trace (final res) = trace s @ evs" by auto
  then have ne: "new_events s (final res) = evs" by (rule new_events_append)
  from st have "flags s' AND domain_running = flags s0 AND domain_running"
    by (simp add: stable_def)
  with res m s0(3) have "flags (final res) AND domain_running = flags s AND domain_running"
    by (auto simp: finish_def and_not_disjoint)
  moreover from ev s0 have "\<forall>e \<in> set evs.
          ev_flags e AND RUNNING = RUNNING \<and>
          ev_flags e AND domain_running = flags s AND domain_running"
    by (simp add: sees_def)
  ultimately show ?thesis using t ne by simp
qed

text \<open>
  Claim C10. No operation touches the three per-domain RUNNING bits: a new scheduler has them
  clear, the scheduling calls keep them, and in a flush of any domain every task starts with
  the generic RUNNING bit set and with the per-domain bits as they were before the flush,
  which is also how the flush leaves them. So the flag register never tells which domain is
  running.
\<close>

theorem only_generic_running_bit:
  "flags new_scheduler AND domain_running = 0 \<and>
   flags (scheduleMicrotask cb s) AND domain_running = flags s AND domain_running \<and>
   flags (scheduleMacrotask cb s) AND domain_running = flags s AND domain_running \<and>
   flags (snd (nextFrame s)) AND domain_running = flags s AND domain_running \<and>
   (\<forall>flush \<in> flushes. \<forall>res. flush P n s = Some res \<longrightarrow>
      trace (final res) = trace s @ new_events s (final res) \<and>
      (\<forall>e \<in> set (new_events s (final res)).
          ev_flags e AND RUNNING = RUNNING \<and>
          ev_flags e AND domain_running = flags s AND domain_running) \<and>
      flags (final res) AND domain_running = flags s AND domain_running)"
proof (intro conjI ballI allI impI)
  show "flags new_scheduler AND domain_running = 0"
    by (simp add: new_scheduler_def)
  show "flags (scheduleMicrotask cb s) AND domain_running = flags s AND domain_running"
    using api_rel_scheduleMicrotask [of s cb] by (simp add: api_rel_def)
  show "flags (scheduleMacrotask cb s) AND domain_running = flags s AND domain_running"
    using api_rel_scheduleMacrotask [of s cb] by (simp add: api_rel_def)
  show "flags (snd (nextFrame s)) AND domain_running = flags s AND domain_running"
    using api_rel_nextFrame [of s] by (simp add: api_rel_def)
next
  fix flush res
  assume "flush \<in> flushes" and "flush P n s = Some res"
  then obtain s0 m where *: "flush_result run_rel s0 m res" "trace s0 = trace s"
    "flags s0 AND RUNNING = RUNNING" "flags s0 AND domain_running = flags s AND domain_running"
    "m AND domain_running = 0"
    by (rule flushes_result)
  note r = flush_result_running [OF *]
  from r show "trace (final res) = trace s @ new_events s (final res)" by (rule conjunct1)
  from r show "flags (final res) AND domain_running = flags s AND domain_running" by blast
  fix e assume "e \<in> set (new_events s (final res))"
  with r show "ev_flags e AND RUNNING = RUNNING"
    and "ev_flags e AND domain_running = flags s AND domain_running" by blast+
qed

theorem only_generic_running_bit_witness:
  "completes (handleAnimationFrame prog_idle 5 state_frame) \<and>
   length (flush_events state_frame (handleAnimationFrame prog_idle 5 state_frame)) = 2 \<and>
   list_all (\<lambda>e. ev_flags e AND RUNNING = RUNNING \<and> ev_flags e AND domain_running = 0)
     (flush_events state_frame (handleAnimationFrame prog_idle 5 state_frame))"
proof -
  have 1: "completes (handleAnimationFrame prog_idle 5 state_frame)" by code_simp
  then obtain s' where r: "handleAnimationFrame prog_idle 5 state_frame = Some (Inr s')"
    by (rule completesE)
  have 2: "length (flush_events state_frame (handleAnimationFrame prog_idle 5 state_frame)) = 2"
    by code_simp
  have 3: "flags state_frame AND domain_running = 0" by code_simp
  have "handleAnimationFrame \<in> flushes" by (simp add: flushes_def)
  with only_generic_running_bit [of cb state_frame prog_idle 5] r 3
  have "\<forall>e \<in> set (new_events state_frame s').
          ev_flags e AND RUNNING = RUNNING \<and> ev_flags e AND domain_running = 0"
    by (metis final_simps(2))
  with 1 2 r show ?thesis
    by (simp add: flush_events_def list_all_iff)
qed

section \<open>Errors in a frame flush\<close>

lemma frame_start_pending [simp]: "flags (frame_start s) AND FRAMETASK_PENDING = 0"
  by (simp add: frame_start_def FRAMETASK_PENDING_def RUNNING_def bit.conj_disj_distrib2
      word_bw_assocs)

lemma frame_start_running [simp]: "flags (frame_start s) AND RUNNING = RUNNING"
  by (simp add: frame_start_def RUNNING_def bit.conj_disj_distrib2)

text \<open>
  Claim C8 says that the bookkeeping of a frame flush completes when a task raises an error.
  In the code the error leaves \<^verbatim>\<open>_handleAnimationFrame\<close> at once, there is no
  \<^verbatim>\<open>try ... finally\<close>: in the example the clock is still 1 after the flush and RUNNING
  (\<open>0x100\<close>) is still set.
\<close>

theorem error_skips_bookkeeping_counterexample:
  "raises (handleAnimationFrame prog_throw 5 state_throw) \<and>
   clock state_throw = 1 \<and>
   map_option (clock \<circ> final) (handleAnimationFrame prog_throw 5 state_throw) = Some 1 \<and>
   map_option (flags \<circ> final) (handleAnimationFrame prog_throw 5 state_throw) = Some RUNNING"
  by code_simp

text \<open>
  Claim C8, amended. When a task raises an error in a frame flush, the flush stops there:
  the frames have been swapped and FRAMETASK_PENDING was cleared before any task ran, so it
  is clear unless a task has armed a new registration with \<^verbatim>\<open>nextFrame()\<close> since;
  but the clock is not incremented and RUNNING stays set.
\<close>

theorem error_leaves_frame_flush_unfinished:
  assumes "handleAnimationFrame P n s = Some (Inl (e, s'))"
  shows "clock s' = clock s \<and> flags s' AND RUNNING = RUNNING \<and>
     cur_frame s' = next_frame s \<and> next_frame s' = cur_frame s \<and>
     (if flags s' AND FRAMETASK_PENDING = 0
      then animation_requests s' = animation_requests s
      else animation_requests s' = animation_requests s + 1)"
proof -
  from assms have "flush_result run_rel (frame_start s) RUNNING (Inl (e, s'))"
    by (rule handleAnimationFrame_run_rel)
  then have "run_rel (frame_start s) s'"
    by (simp add: flush_result_def)
  then have st: "stable (frame_start s) s'"
    by (simp add: run_rel_def)
  then have "arm_rel FRAMETASK_PENDING animation_requests (frame_start s) s'"
    by (simp add: stable_def regs_rel_def)
  then have "if flags s' AND FRAMETASK_PENDING = 0
      then animation_requests s' = animation_requests s
      else animation_requests s' = animation_requests s + 1"
    by (auto simp: arm_rel_def) (simp_all add: frame_start_def)
  moreover from st have "flags s' AND RUNNING = RUNNING"
    using untouched_running(1) unfolding stable_def by (metis frame_start_running)
  moreover from st have "clock s' = clock s" "cur_frame s' = next_frame s"
    "next_frame s' = cur_frame s"
    by (simp_all add: stable_def frame_start_def)
  ultimately show ?thesis by simp
qed

theorem error_leaves_frame_flush_unfinished_witness:
  "raises (handleAnimationFrame prog_throw 5 state_throw) \<and>
   map_option (clock \<circ> final) (handleAnimationFrame prog_throw 5 state_throw)
     = Some (clock state_throw) \<and>
   map_option (cur_frame \<circ> final) (handleAnimationFrame prog_throw 5 state_throw)
     = Some (next_frame state_throw)"
proof -
  have 1: "raises (handleAnimationFrame prog_throw 5 state_throw)" by code_simp
  then obtain e s' where r: "handleAnimationFrame prog_throw 5 state_throw = Some (Inl (e, s'))"
    by (rule raisesE)
  from error_leaves_frame_flush_unfinished [OF r] 1 r show ?thesis by simp
qed

section \<open>Registration of the frame flush\<close>

lemma nextFrame_fst [simp]: "fst (nextFrame s) = next_frame s"
  by (simp add: nextFrame_def)

lemma nextFrame_next_frame [simp]: "next_frame (snd (nextFrame s)) = next_frame s"
  by (simp add: nextFrame_def)

lemma nextFrame_pending [simp]: "flags (snd (nextFrame s)) AND FRAMETASK_PENDING \<noteq> 0"
  by (simp add: nextFrame_def)

lemma nextFrame_requests:
  "animation_requests (snd (nextFrame s)) =
     animation_requests s + (if flags s AND FRAMETASK_PENDING = 0 then 1 else 0)"
  by (simp add: nextFrame_def)

lemma nextFrame_calls_pending:
  "flags s AND FRAMETASK_PENDING \<noteq> 0 \<Longrightarrow>
   fst (nextFrame_calls N s) = replicate N (next_frame s) \<and>
   animation_requests (snd (nextFrame_calls N s)) = animation_requests s \<and>
   flags (snd (nextFrame_calls N s)) AND FRAMETASK_PENDING \<noteq> 0 \<and>
   next_frame (snd (nextFrame_calls N s)) = next_frame s"
proof (induction N arbitrary: s)
  case 0
  then show ?case by simp
next
  case (Suc N)
  from Suc.prems have "snd (nextFrame s) = s" by (simp add: nextFrame_def)
  with Suc.IH [of s] Suc.prems show ?case
    by (simp add: case_prod_unfold)
qed

text \<open>
  Claim C6. \<open>nextFrame_calls N\<close> calls \<^verbatim>\<open>nextFrame()\<close> \<open>N\<close> times in a row and collects
  what the calls return. Every call returns the next frame. When no registration is pending
  before the first call and \<open>N \<ge> 1\<close>, exactly one host callback is requested, by the first
  call, which sets FRAMETASK_PENDING; when one is pending already, none is requested.
\<close>

theorem nextFrame_registers_once:
  "fst (nextFrame_calls N s) = replicate N (next_frame s) \<and>
   animation_requests (snd (nextFrame_calls N s)) =
     animation_requests s + (if 0 < N \<and> flags s AND FRAMETASK_PENDING = 0 then 1 else 0) \<and>
   (0 < N \<longrightarrow> flags (snd (nextFrame_calls N s)) AND FRAMETASK_PENDING \<noteq> 0) \<and>
   flags (snd (nextFrame_calls 1 s)) AND FRAMETASK_PENDING \<noteq> 0"
proof (cases N)
  case 0
  then show ?thesis by (simp add: case_prod_unfold)
next
  case (Suc k)
  have p: "flags (snd (nextFrame s)) AND FRAMETASK_PENDING \<noteq> 0" by simp
  from nextFrame_calls_pending [OF p, of k] Suc show ?thesis
    by (simp add: case_prod_unfold nextFrame_requests)
qed

theorem nextFrame_registers_once_witness:
  "flags new_scheduler AND FRAMETASK_PENDING = 0 \<and>
   fst (nextFrame_calls 3 new_scheduler) = [1, 1, 1] \<and>
   animation_requests (snd (nextFrame_calls 3 new_scheduler)) = 1 \<and>
   flags (snd (nextFrame_calls 3 new_scheduler)) AND FRAMETASK_PENDING \<noteq> 0"
proof -
  have "flags new_scheduler AND FRAMETASK_PENDING = 0"
    and "next_frame new_scheduler = 1" and "animation_requests new_scheduler = 0"
    by (simp_all add: new_scheduler_def)
  with nextFrame_registers_once [of 3 new_scheduler] show ?thesis
    by (simp add: numeral_3_eq_3)
qed

section \<open>Arrays that are iterated in place\<close>

text \<open>
  Claim C9 (the code differs). The frame flush does not detach \<^verbatim>\<open>frame.writeTasks\<close>
  before iterating it. A plain write task that, once, adds a plain write task to the current
  frame: the task is appended to the array being iterated, so it runs in the same
  iteration, and since the append sets WRITE again the whole array, which still holds both
  tasks, is run a second time.
\<close>

theorem writeTasks_iterated_in_place:
  "completes (handleAnimationFrame prog_write_again 6 state_write) \<and>
   map ev_task (flush_events state_write (handleAnimationFrame prog_write_again 6 state_write))
     = [Callback 0, Callback 1, Callback 0, Callback 1] \<and>
   map ev_phase (flush_events state_write (handleAnimationFrame prog_write_again 6 state_write))
     = [WritePhase, WritePhase, WritePhase, WritePhase] \<and>
   list_all iterates_live
     (flush_events state_write (handleAnimationFrame prog_write_again 6 state_write))"
  by code_simp

text \<open>
  Claim C7 (the code differs). The frame flush does not detach \<^verbatim>\<open>frame.afterTasks\<close>
  either. An after-task that, once, adds an after-task to the current frame: both tasks were
  scheduled once, both run twice in the one frame pass.
\<close>

theorem afterTasks_run_twice:
  "completes (handleAnimationFrame prog_after_again 6 state_after) \<and>
   map ev_task (flush_events state_after (handleAnimationFrame prog_after_again 6 state_after))
     = [Callback 0, Callback 1, Callback 0, Callback 1] \<and>
   map ev_phase (flush_events state_after (handleAnimationFrame prog_after_again 6 state_after))
     = [AfterPhase, AfterPhase, AfterPhase, AfterPhase] \<and>
   map ev_round (flush_events state_after (handleAnimationFrame prog_after_again 6 state_after))
     = [1, 1, 2, 2]"
  by code_simp

lemma set_the_refs: "set (the_refs xs) = {r. Some r \<in> set xs}"
  by (induction xs rule: the_refs.induct) auto

lemma the_refs_Cons:
  "the_refs (x # xs) = (case x of None \<Rightarrow> the_refs xs | Some r \<Rightarrow> r # the_refs xs)"
  by (cases x) simp_all

lemma the_refs_append [simp]: "the_refs (xs @ ys) = the_refs xs @ the_refs ys"
  by (induction xs rule: the_refs.induct) auto

lemma the_refs_replicate_None [simp]: "the_refs (replicate k None) = []"
  by (induction k) auto

lemma the_refs_pad_groups [simp]: "the_refs (pad_groups p gs) = the_refs gs"
  by (simp add: pad_groups_def)

lemma length_pad_groups: "p < length (pad_groups p gs)"
  by (simp add: pad_groups_def)

lemma set_the_refs_update_subset:
  "set (the_refs (xs[p := x])) \<subseteq> set (the_refs [x]) \<union> set (the_refs xs)"
  using set_update_subset_insert [of xs p x]
  by (cases x) (auto simp: set_the_refs)

lemma distinct_the_refs_update_Some:
  "distinct (the_refs xs) \<Longrightarrow> r \<notin> set (the_refs xs) \<Longrightarrow> xs ! p = None \<Longrightarrow>
   distinct (the_refs (xs[p := Some r]))"
proof (induction xs arbitrary: p rule: the_refs.induct)
  case 1
  then show ?case by simp
next
  case (2 xs)
  then show ?case by (cases p) auto
next
  case (3 a xs)
  then show ?case
    using set_the_refs_update_subset [of xs _ "Some r"]
    by (cases p) auto
qed

lemma set_the_refs_update_Some:
  "p < length xs \<Longrightarrow> xs ! p = None \<Longrightarrow>
   set (the_refs (xs[p := Some r])) = insert r (set (the_refs xs))"
proof (induction xs arbitrary: p rule: the_refs.induct)
  case 1
  then show ?case by simp
next
  case (2 xs)
  then show ?case by (cases p) auto
next
  case (3 a xs)
  then show ?case by (cases p) auto
qed

lemma distinct_the_refs_update_None:
  "distinct (the_refs xs) \<Longrightarrow> distinct (the_refs (xs[p := None]))"
proof (induction xs arbitrary: p rule: the_refs.induct)
  case 1
  then show ?case by simp
next
  case (2 xs)
  then show ?case by (cases p) auto
next
  case (3 a xs)
  then show ?case
    using set_the_refs_update_subset [of xs _ None]
    by (cases p) auto
qed

lemma nth_the_refs: "p < length xs \<Longrightarrow> xs ! p = Some g \<Longrightarrow> g \<in> set (the_refs xs)"
  by (auto simp: set_the_refs dest: nth_mem)

lemma the_refs_update_None_removes:
  "distinct (the_refs xs) \<Longrightarrow> p < length xs \<Longrightarrow> xs ! p = Some g \<Longrightarrow>
   set (the_refs (xs[p := None])) = set (the_refs xs) - {g}"
proof (induction xs arbitrary: p rule: the_refs.induct)
  case 1
  then show ?case by simp
next
  case (2 xs)
  then show ?case by (cases p) auto
next
  case (3 a xs)
  then show ?case by (cases p) (auto dest: nth_the_refs)
qed

lemma heap_ok_refl [simp]: "heap_ok s s"
  by (simp add: heap_ok_def)

lemma heap_ok_trans: "heap_ok a b \<Longrightarrow> heap_ok b c \<Longrightarrow> heap_ok a c"
  by (auto simp: heap_ok_def)

lemma heap_ok_same:
  assumes "live_refs s' = live_refs s" "fresh s' = fresh s" "cur_frame s' = cur_frame s"
    "next_frame s' = next_frame s" "\<And>r. r \<notin> set (live_refs s) \<Longrightarrow> arrays s' r = arrays s r"
  shows "heap_ok s s'"
  using assms by (auto simp: heap_ok_def well_formed_def detached_def)

lemma live_refs_upd_frame:
  "live_refs (upd_frame f g s) =
     microtasks s # macrotasks s #
     frame_refs (if f = cur_frame s then g (frames s f) else frames s (cur_frame s)) @
     frame_refs (if f = next_frame s then g (frames s f) else frames s (next_frame s))"
  by (simp add: live_refs_def upd_frame_def)

lemma upd_frame_fields [simp]:
  "fresh (upd_frame f g s) = fresh s" "cur_frame (upd_frame f g s) = cur_frame s"
  "next_frame (upd_frame f g s) = next_frame s" "arrays (upd_frame f g s) = arrays s"
  "microtasks (upd_frame f g s) = microtasks s" "macrotasks (upd_frame f g s) = macrotasks s"
  "frames (upd_frame f g s) = (frames s)(f := g (frames s f))"
  "flags (upd_frame f g s) = flags s" "clock (upd_frame f g s) = clock s"
  "trace (upd_frame f g s) = trace s"
  by (simp_all add: upd_frame_def)

lemma new_array_fields [simp]:
  "fst (new_array s) = fresh s"
  "fresh (snd (new_array s)) = Suc (fresh s)" "cur_frame (snd (new_array s)) = cur_frame s"
  "next_frame (snd (new_array s)) = next_frame s"
  "arrays (snd (new_array s)) = (arrays s)(fresh s := [])"
  "microtasks (snd (new_array s)) = microtasks s" "macrotasks (snd (new_array s)) = macrotasks s"
  "frames (snd (new_array s)) = frames s"
  "flags (snd (new_array s)) = flags s" "clock (snd (new_array s)) = clock s"
  "trace (snd (new_array s)) = trace s"
  by (simp_all add: new_array_def)

lemma push_fields [simp]:
  "fresh (push r cb s) = fresh s" "cur_frame (push r cb s) = cur_frame s"
  "next_frame (push r cb s) = next_frame s"
  "arrays (push r cb s) = (arrays s)(r := arrays s r @ [cb])"
  "microtasks (push r cb s) = microtasks s" "macrotasks (push r cb s) = macrotasks s"
  "frames (push r cb s) = frames s"
  "flags (push r cb s) = flags s" "clock (push r cb s) = clock s"
  "trace (push r cb s) = trace s"
  by (simp_all add: push_def)

lemma live_refs_push [simp]: "live_refs (push r cb s) = live_refs s"
  by (simp add: live_refs_def)

lemma live_refs_new_array [simp]: "live_refs (snd (new_array s)) = live_refs s"
  by (simp add: live_refs_def)

lemma heap_ok_push: "r \<in> set (live_refs s) \<Longrightarrow> heap_ok s (push r cb s)"
  by (rule heap_ok_same) auto

lemma distinct_shrink:
  "distinct (pre @ X @ post) \<Longrightarrow> set X' \<subseteq> set X \<Longrightarrow> distinct X' \<Longrightarrow>
   distinct (pre @ X' @ post)"
  by auto

lemma distinct_alloc:
  "distinct (pre @ X @ post) \<Longrightarrow> \<forall>r \<in> set (pre @ X @ post). r < (k::nat) \<Longrightarrow>
   set X' \<subseteq> insert k (set X) \<Longrightarrow> distinct X' \<Longrightarrow> distinct (pre @ X' @ post)"
  by (simp add: disjoint_iff subset_iff) (metis UnI1 UnI2 less_irrefl)

lemma live_refs_split:
  "live_refs s = [microtasks s, macrotasks s] @ frame_refs (frames s (cur_frame s)) @
     frame_refs (frames s (next_frame s))"
  "live_refs s = ([microtasks s, macrotasks s] @ frame_refs (frames s (cur_frame s))) @
     frame_refs (frames s (next_frame s)) @ []"
  by (simp_all add: live_refs_def)

text \<open>The live arrays after a change of frame \<open>f\<close>, when the two frames are two objects
  (\<open>X'\<close> are the arrays of the changed frame).\<close>

lemma live_refs_changed:
  assumes "cur_frame s \<noteq> next_frame s"
    and "frames s' = (frames s)(f := fr')" "microtasks s' = microtasks s"
    "macrotasks s' = macrotasks s" "cur_frame s' = cur_frame s" "next_frame s' = next_frame s"
  shows "f = cur_frame s \<Longrightarrow>
      live_refs s' = [microtasks s, macrotasks s] @ frame_refs fr' @
        frame_refs (frames s (next_frame s))"
    and "f = next_frame s \<Longrightarrow>
      live_refs s' = ([microtasks s, macrotasks s] @ frame_refs (frames s (cur_frame s))) @
        frame_refs fr' @ []"
    and "f \<noteq> cur_frame s \<Longrightarrow> f \<noteq> next_frame s \<Longrightarrow> live_refs s' = live_refs s"
  using assms by (simp_all add: live_refs_def)

lemma live_refs_after_change:
  assumes ne: "cur_frame s \<noteq> next_frame s"
    and s': "frames s' = (frames s)(f := fr')" "microtasks s' = microtasks s"
    "macrotasks s' = macrotasks s" "cur_frame s' = cur_frame s" "next_frame s' = next_frame s"
  obtains pre post where "live_refs s = pre @ frame_refs (frames s f) @ post"
      and "live_refs s' = pre @ frame_refs fr' @ post"
    | "live_refs s' = live_refs s"
proof -
  consider "f = cur_frame s" | "f = next_frame s" | "f \<noteq> cur_frame s" "f \<noteq> next_frame s"
    by blast
  then show thesis
  proof cases
    case 1
    with live_refs_changed(1) [OF ne s'] live_refs_split(1) [of s] that(1) show thesis
      by metis
  next
    case 2
    with live_refs_changed(2) [OF ne s'] live_refs_split(2) [of s] that(1) show thesis
      by metis
  next
    case 3
    with live_refs_changed(3) [OF ne s'] that(2) show thesis by blast
  qed
qed

text \<open>A change of one frame that adds no array.\<close>

lemma heap_ok_change:
  assumes s': "frames s' = (frames s)(f := fr')" "microtasks s' = microtasks s"
      "macrotasks s' = macrotasks s" "cur_frame s' = cur_frame s" "next_frame s' = next_frame s"
      "fresh s' = fresh s" "arrays s' = arrays s"
    and sub: "set (frame_refs fr') \<subseteq> set (frame_refs (frames s f))"
    and dist: "distinct (frame_refs (frames s f)) \<Longrightarrow> distinct (frame_refs fr')"
  shows "heap_ok s s'"
  unfolding heap_ok_def
proof (intro impI conjI allI)
  assume wf: "well_formed s"
  then have ne: "cur_frame s \<noteq> next_frame s" by (simp add: well_formed_def)
  from ne s'(1-5) have live: "distinct (live_refs s') \<and> set (live_refs s') \<subseteq> set (live_refs s)"
  proof (rule live_refs_after_change)
    fix pre post
    assume 1: "live_refs s = pre @ frame_refs (frames s f) @ post"
      and 2: "live_refs s' = pre @ frame_refs fr' @ post"
    from wf 1 have d: "distinct (pre @ frame_refs (frames s f) @ post)"
      by (simp add: well_formed_def)
    then have "distinct (frame_refs (frames s f))" by simp
    with d sub dist have "distinct (pre @ frame_refs fr' @ post)"
      by (blast intro: distinct_shrink)
    with 1 2 sub show ?thesis by auto
  next
    assume "live_refs s' = live_refs s"
    with wf show ?thesis by (simp add: well_formed_def)
  qed
  with wf s' show "well_formed s'"
    by (auto simp: well_formed_def)
  fix r assume "detached r s"
  with live s' show "detached r s'" and "arrays s' r = arrays s r"
    by (auto simp: detached_def)
qed

lemma heap_ok_upd_frame:
  assumes "set (frame_refs (g (frames s f))) \<subseteq> set (frame_refs (frames s f))"
    and "distinct (frame_refs (frames s f)) \<Longrightarrow> distinct (frame_refs (g (frames s f)))"
  shows "heap_ok s (upd_frame f g s)"
  by (rule heap_ok_change [where f = f and fr' = "g (frames s f)"]) (use assms in simp_all)

text \<open>A change of one frame that adds the newly allocated array.\<close>

lemma heap_ok_alloc:
  assumes s': "frames s' = (frames s)(f := fr')" "microtasks s' = microtasks s"
      "macrotasks s' = macrotasks s" "cur_frame s' = cur_frame s" "next_frame s' = next_frame s"
      "fresh s' = Suc (fresh s)" "\<And>r. r \<noteq> fresh s \<Longrightarrow> arrays s' r = arrays s r"
    and sub: "set (frame_refs fr') \<subseteq> insert (fresh s) (set (frame_refs (frames s f)))"
    and dist: "distinct (frame_refs (frames s f)) \<Longrightarrow>
        fresh s \<notin> set (frame_refs (frames s f)) \<Longrightarrow> distinct (frame_refs fr')"
  shows "heap_ok s s'"
  unfolding heap_ok_def
proof (intro impI conjI allI)
  assume wf: "well_formed s"
  then have ne: "cur_frame s \<noteq> next_frame s"
    and bound: "\<forall>r \<in> set (live_refs s). r < fresh s"
    by (simp_all add: well_formed_def)
  from ne s'(1-5)
  have live: "distinct (live_refs s') \<and> set (live_refs s') \<subseteq> insert (fresh s) (set (live_refs s))"
  proof (rule live_refs_after_change)
    fix pre post
    assume 1: "live_refs s = pre @ frame_refs (frames s f) @ post"
      and 2: "live_refs s' = pre @ frame_refs fr' @ post"
    from wf 1 have d: "distinct (pre @ frame_refs (frames s f) @ post)"
      by (simp add: well_formed_def)
    from bound 1 have b: "\<forall>r \<in> set (pre @ frame_refs (frames s f) @ post). r < fresh s"
      by simp
    then have "fresh s \<notin> set (frame_refs (frames s f))" by auto
    moreover from d have "distinct (frame_refs (frames s f))" by simp
    ultimately have "distinct (frame_refs fr')" by (rule dist [rotated])
    with d b sub have "distinct (pre @ frame_refs fr' @ post)"
      by (rule distinct_alloc)
    with 1 2 sub show ?thesis by auto
  next
    assume "live_refs s' = live_refs s"
    with wf show ?thesis by (auto simp: well_formed_def)
  qed
  with wf s' show "well_formed s'"
    by (auto simp: well_formed_def less_Suc_eq dest!: subsetD)
  fix r assume "detached r s"
  with live s' show "detached r s'" and "arrays s' r = arrays s r"
    by (auto simp: detached_def)
qed

subsection \<open>The arrays of a frame under the changes the code makes\<close>

lemma frame_refs_flags [simp]: "frame_refs (fr\<lparr>frame_flags := x\<rparr>) = frame_refs fr"
  by (simp add: frame_refs_def)

lemma frame_refs_pad [simp]:
  "frame_refs (fr\<lparr>writeTaskGroups := pad_groups p (writeTaskGroups fr)\<rparr>) = frame_refs fr"
  by (simp add: frame_refs_def)

lemma frame_refs_field:
  "writeTasks fr = Some r \<Longrightarrow> r \<in> set (frame_refs fr)"
  "readTasks fr = Some r \<Longrightarrow> r \<in> set (frame_refs fr)"
  "afterTasks fr = Some r \<Longrightarrow> r \<in> set (frame_refs fr)"
  "p < length (writeTaskGroups fr) \<Longrightarrow> writeTaskGroups fr ! p = Some r \<Longrightarrow>
     r \<in> set (frame_refs fr)"
  by (auto simp: frame_refs_def the_refs_Cons split: option.splits dest: nth_the_refs)

lemma frame_refs_set_field:
  "writeTasks fr = None \<Longrightarrow>
     set (frame_refs (fr\<lparr>writeTasks := Some r\<rparr>)) \<subseteq> insert r (set (frame_refs fr)) \<and>
     (distinct (frame_refs fr) \<longrightarrow> r \<notin> set (frame_refs fr) \<longrightarrow>
        distinct (frame_refs (fr\<lparr>writeTasks := Some r\<rparr>)))"
  "readTasks fr = None \<Longrightarrow>
     set (frame_refs (fr\<lparr>readTasks := Some r\<rparr>)) \<subseteq> insert r (set (frame_refs fr)) \<and>
     (distinct (frame_refs fr) \<longrightarrow> r \<notin> set (frame_refs fr) \<longrightarrow>
        distinct (frame_refs (fr\<lparr>readTasks := Some r\<rparr>)))"
  "afterTasks fr = None \<Longrightarrow>
     set (frame_refs (fr\<lparr>afterTasks := Some r\<rparr>)) \<subseteq> insert r (set (frame_refs fr)) \<and>
     (distinct (frame_refs fr) \<longrightarrow> r \<notin> set (frame_refs fr) \<longrightarrow>
        distinct (frame_refs (fr\<lparr>afterTasks := Some r\<rparr>)))"
  by (auto simp: frame_refs_def the_refs_Cons split: option.splits)

lemma frame_refs_set_slot:
  assumes "writeTaskGroups fr ! p = None"
  shows "set (frame_refs (fr\<lparr>writeTaskGroups := (writeTaskGroups fr)[p := Some r]\<rparr>))
           \<subseteq> insert r (set (frame_refs fr)) \<and>
     (distinct (frame_refs fr) \<longrightarrow> r \<notin> set (frame_refs fr) \<longrightarrow>
        distinct (frame_refs (fr\<lparr>writeTaskGroups := (writeTaskGroups fr)[p := Some r]\<rparr>)))"
proof -
  let ?gs = "writeTaskGroups fr"
  have sub: "set (the_refs (?gs[p := Some r])) \<subseteq> insert r (set (the_refs ?gs))"
    using set_the_refs_update_subset [of ?gs p "Some r"] by auto
  have "distinct (the_refs (?gs[p := Some r]))"
    if "distinct (the_refs ?gs)" "r \<notin> set (the_refs ?gs)"
    using that assms by (rule distinct_the_refs_update_Some)
  with sub show ?thesis
    by (auto simp: frame_refs_def the_refs_Cons split: option.splits)
qed

lemma frame_refs_null_field:
  "set (frame_refs (fr\<lparr>readTasks := None\<rparr>)) \<subseteq> set (frame_refs fr)"
  "distinct (frame_refs fr) \<Longrightarrow> distinct (frame_refs (fr\<lparr>readTasks := None\<rparr>))"
  "distinct (frame_refs fr) \<Longrightarrow> readTasks fr = Some g \<Longrightarrow>
     g \<notin> set (frame_refs (fr\<lparr>readTasks := None\<rparr>))"
  by (auto simp: frame_refs_def the_refs_Cons split: option.splits)

lemma frame_refs_null_slot:
  "set (frame_refs (fr\<lparr>writeTaskGroups := (writeTaskGroups fr)[i := None]\<rparr>))
     \<subseteq> set (frame_refs fr)"
  "distinct (frame_refs fr) \<Longrightarrow>
     distinct (frame_refs (fr\<lparr>writeTaskGroups := (writeTaskGroups fr)[i := None]\<rparr>))"
  "distinct (frame_refs fr) \<Longrightarrow> i < length (writeTaskGroups fr) \<Longrightarrow>
     writeTaskGroups fr ! i = Some g \<Longrightarrow>
     g \<notin> set (frame_refs (fr\<lparr>writeTaskGroups := (writeTaskGroups fr)[i := None]\<rparr>))"
proof -
  let ?gs = "writeTaskGroups fr"
  have sub: "set (the_refs (?gs[i := None])) \<subseteq> set (the_refs ?gs)"
    using set_the_refs_update_subset [of ?gs i None] by auto
  then show "set (frame_refs (fr\<lparr>writeTaskGroups := ?gs[i := None]\<rparr>)) \<subseteq> set (frame_refs fr)"
    by (auto simp: frame_refs_def)
  assume d: "distinct (frame_refs fr)"
  then have dg: "distinct (the_refs ?gs)" by (simp add: frame_refs_def)
  from d sub distinct_the_refs_update_None [OF dg, of i]
  show "distinct (frame_refs (fr\<lparr>writeTaskGroups := ?gs[i := None]\<rparr>))"
    by (auto simp: frame_refs_def)
  assume "i < length ?gs" "?gs ! i = Some g"
  with dg have "set (the_refs (?gs[i := None])) = set (the_refs ?gs) - {g}"
    and "g \<in> set (the_refs ?gs)"
    by (simp_all add: the_refs_update_None_removes nth_the_refs)
  with d show "g \<notin> set (frame_refs (fr\<lparr>writeTaskGroups := ?gs[i := None]\<rparr>))"
    by (auto simp: frame_refs_def)
qed

lemma frame_refs_live:
  "f = cur_frame s \<or> f = next_frame s \<Longrightarrow> r \<in> set (frame_refs (frames s f)) \<Longrightarrow>
   r \<in> set (live_refs s)"
  by (auto simp: live_refs_def)

subsection \<open>The scheduling calls keep the store well formed\<close>

lemma heap_ok_set_frame_flag [simp]: "heap_ok s (set_frame_flag f m s)"
  unfolding set_frame_flag_def by (rule heap_ok_upd_frame) simp_all

lemma heap_ok_clear_frame_flag [simp]: "heap_ok s (clear_frame_flag f m s)"
  unfolding clear_frame_flag_def by (rule heap_ok_upd_frame) simp_all

lemma heap_ok_frame_push:
  assumes f: "f = cur_frame s \<or> f = next_frame s"
    and gt: "\<And>r. gt (frames s f) = Some r \<Longrightarrow> r \<in> set (frame_refs (frames s f))"
    and st: "gt (frames s f) = None \<Longrightarrow>
       set (frame_refs (st (fresh s) (frames s f))) \<subseteq> insert (fresh s) (set (frame_refs (frames s f)))
       \<and> (distinct (frame_refs (frames s f)) \<longrightarrow> fresh s \<notin> set (frame_refs (frames s f)) \<longrightarrow>
            distinct (frame_refs (st (fresh s) (frames s f))))"
  shows "heap_ok s (frame_push f gt st cb s)"
proof (cases "gt (frames s f)")
  case (Some r)
  with gt f have "r \<in> set (live_refs s)" by (blast intro: frame_refs_live)
  with Some show ?thesis by (simp add: frame_push_def heap_ok_push)
next
  case None
  let ?s' = "push (fresh s) cb (upd_frame f (st (fresh s)) (snd (new_array s)))"
  have "heap_ok s ?s'"
    by (rule heap_ok_alloc [where f = f and fr' = "st (fresh s) (frames s f)"])
       (use st [OF None] in simp_all)
  with None show ?thesis by (simp add: frame_push_def case_prod_unfold)
qed

lemma heap_ok_frame_read:
  assumes "f = cur_frame s \<or> f = next_frame s"
  shows "heap_ok s (frame_read f cb s)"
  unfolding frame_read_def
proof (rule heap_ok_trans [OF heap_ok_set_frame_flag heap_ok_frame_push])
  show "f = cur_frame (set_frame_flag f READ s) \<or> f = next_frame (set_frame_flag f READ s)"
    using assms by (simp add: set_frame_flag_def)
qed (auto simp: frame_refs_field frame_refs_set_field)

lemma heap_ok_frame_after:
  assumes "f = cur_frame s \<or> f = next_frame s"
  shows "heap_ok s (frame_after f cb s)"
  unfolding frame_after_def
proof (rule heap_ok_trans [OF heap_ok_set_frame_flag heap_ok_frame_push])
  show "f = cur_frame (set_frame_flag f AFTER s) \<or> f = next_frame (set_frame_flag f AFTER s)"
    using assms by (simp add: set_frame_flag_def)
qed (auto simp: frame_refs_field frame_refs_set_field)

lemma heap_ok_frame_write:
  assumes f: "f = cur_frame s \<or> f = next_frame s"
  shows "heap_ok s (frame_write f cb prio s)"
proof (cases prio)
  case None
  have "heap_ok s (frame_push f writeTasks (\<lambda>r fr. fr\<lparr>writeTasks := Some r\<rparr>) cb
      (set_frame_flag f WRITE s))"
  proof (rule heap_ok_trans [OF heap_ok_set_frame_flag heap_ok_frame_push])
    show "f = cur_frame (set_frame_flag f WRITE s) \<or> f = next_frame (set_frame_flag f WRITE s)"
      using f by (simp add: set_frame_flag_def)
  qed (auto simp: frame_refs_field frame_refs_set_field)
  with None show ?thesis by (simp add: frame_write_def)
next
  case (Some p)
  let ?s1 = "set_frame_flag f WRITE_PRIO s"
  let ?s2 = "upd_frame f (\<lambda>fr. fr\<lparr>writeTaskGroups := pad_groups p (writeTaskGroups fr)\<rparr>) ?s1"
  have 1: "heap_ok s ?s2"
    by (rule heap_ok_trans [OF heap_ok_set_frame_flag heap_ok_upd_frame]) simp_all
  have len: "p < length (writeTaskGroups (frames ?s2 f))"
    by (simp add: length_pad_groups)
  have "heap_ok ?s2 (frame_push f (\<lambda>fr. writeTaskGroups fr ! p)
            (\<lambda>r fr. fr\<lparr>writeTaskGroups := (writeTaskGroups fr)[p := Some r]\<rparr>) cb ?s2)"
  proof (rule heap_ok_frame_push)
    show "f = cur_frame ?s2 \<or> f = next_frame ?s2"
      using f by (simp add: set_frame_flag_def)
  next
    fix r assume "writeTaskGroups (frames ?s2 f) ! p = Some r"
    with len show "r \<in> set (frame_refs (frames ?s2 f))"
      by (rule frame_refs_field(4))
  next
    assume "writeTaskGroups (frames ?s2 f) ! p = None"
    then show "set (frame_refs ((frames ?s2 f)
            \<lparr>writeTaskGroups := (writeTaskGroups (frames ?s2 f))[p := Some (fresh ?s2)]\<rparr>))
        \<subseteq> insert (fresh ?s2) (set (frame_refs (frames ?s2 f))) \<and>
       (distinct (frame_refs (frames ?s2 f)) \<longrightarrow> fresh ?s2 \<notin> set (frame_refs (frames ?s2 f)) \<longrightarrow>
        distinct (frame_refs ((frames ?s2 f)
            \<lparr>writeTaskGroups := (writeTaskGroups (frames ?s2 f))[p := Some (fresh ?s2)]\<rparr>)))"
      by (rule frame_refs_set_slot)
  qed
  with 1 Some show ?thesis
    by (simp add: frame_write_def) (blast intro: heap_ok_trans)
qed

lemma heap_ok_apply_frame_op:
  "f = cur_frame s \<or> f = next_frame s \<Longrightarrow> heap_ok s (apply_frame_op f op s)"
  by (cases op) (simp_all add: heap_ok_frame_write heap_ok_frame_read heap_ok_frame_after)

lemma heap_ok_scheduleMicrotask [simp]: "heap_ok s (scheduleMicrotask cb s)"
  by (rule heap_ok_same) (auto simp: scheduleMicrotask_def Let_def live_refs_def)

lemma heap_ok_scheduleMacrotask [simp]: "heap_ok s (scheduleMacrotask cb s)"
  by (rule heap_ok_same) (auto simp: scheduleMacrotask_def Let_def live_refs_def)

lemma heap_ok_nextFrame [simp]: "heap_ok s (snd (nextFrame s))"
  by (rule heap_ok_same) (auto simp: nextFrame_def live_refs_def)

lemma heap_ok_fired [simp]: "heap_ok s (s\<lparr>fired := F\<rparr>)"
  by (rule heap_ok_same) (auto simp: live_refs_def)

lemma heap_ok_exec_action: "heap_ok s (final (exec_action a s))"
proof (induction a arbitrary: s)
  case (OnNextFrame op)
  have "heap_ok (snd (nextFrame s)) (apply_frame_op (next_frame s) op (snd (nextFrame s)))"
    by (rule heap_ok_apply_frame_op) simp
  with heap_ok_nextFrame [of s]
  have "heap_ok s (apply_frame_op (next_frame s) op (snd (nextFrame s)))"
    by (rule heap_ok_trans)
  then show ?case
    by (simp add: case_prod_unfold Let_def)
next
  case (OnCurrentFrame op)
  show ?case by (simp add: heap_ok_apply_frame_op currentFrame_def)
next
  case (Once k a)
  show ?case
    using heap_ok_trans [OF heap_ok_fired Once.IH] by simp
qed simp_all

lemma heap_ok_exec_actions: "heap_ok s (final (exec_actions as s))"
proof (induction as arbitrary: s)
  case Nil
  show ?case by simp
next
  case (Cons a as)
  show ?case
  proof (cases "exec_action a s")
    case (Inl e)
    with heap_ok_exec_action [of s a] show ?thesis by simp
  next
    case (Inr s1)
    with heap_ok_exec_action [of s a] Cons.IH [of s1] show ?thesis
      by (auto intro: heap_ok_trans)
  qed
qed

lemma heap_ok_log_event [simp]: "heap_ok s (log_event ph rnd r t s)"
  by (rule heap_ok_same) (auto simp: log_event_def live_refs_def)

lemma heap_ok_invoke: "heap_ok s (final (invoke P ph rnd r t s))"
  by (auto simp: invoke_def split: task.splits
      intro!: heap_ok_trans [OF heap_ok_log_event heap_ok_exec_actions])

lemma heap_ok_run_tasks: "run_tasks P n ph rnd r i s = Some res \<Longrightarrow> heap_ok s (final res)"
  by (rule run_tasks_rel [where R = heap_ok]) (auto intro: heap_ok_trans heap_ok_invoke)

section \<open>Iterating a detached array\<close>

lemma invoke_trace:
  assumes "invoke P ph rnd r t s = res"
  shows "(\<exists>e. trace (final res) = trace s @ [e] \<and> ev_phase e = ph \<and> ev_round e = rnd \<and>
            ev_task e = t \<and> ev_array e = r \<and> ev_live e = live_refs s \<and>
            ev_flags e = flags s \<and> ev_clock e = clock s)
         \<or> res = Inl (TypeError, s)"
  using assms by (auto simp: invoke_def log_event_def split: task.splits if_splits)

lemma invoke_trace_Inr:
  assumes "invoke P ph rnd r t s = Inr s1"
  obtains e where "trace s1 = trace s @ [e]" "ev_phase e = ph" "ev_round e = rnd"
    "ev_task e = t" "ev_array e = r" "ev_live e = live_refs s" "ev_flags e = flags s"
    "ev_clock e = clock s"
  using invoke_trace [OF assms] by auto

lemma run_tasks_detached:
  assumes "well_formed s" and "detached r s" and "run_tasks P n ph rnd r i s = Some res"
  shows "\<exists>evs. trace (final res) = trace s @ evs \<and>
     (\<forall>e \<in> set evs. ev_phase e = ph \<and> ev_round e = rnd \<and> ev_array e = r \<and> \<not> iterates_live e) \<and>
     (\<exists>k. map ev_task evs = take k (drop i (arrays s r))) \<and>
     (\<forall>s'. res = Inr s' \<longrightarrow> map ev_task evs = drop i (arrays s r))"
  using assms
proof (induction n arbitrary: i s res)
  case 0
  then show ?case by simp
next
  case (Suc n)
  show ?case
  proof (cases "i < length (arrays s r)")
    case False
    with Suc.prems show ?thesis by auto
  next
    case True
    let ?t = "arrays s r ! i"
    from True have dr: "drop i (arrays s r) = ?t # drop (Suc i) (arrays s r)"
      by (simp add: Cons_nth_drop_Suc)
    from Suc.prems(2) have nl: "r \<notin> set (live_refs s)" by (simp add: detached_def)
    show ?thesis
    proof (cases "invoke P ph rnd r ?t s")
      case (Inl x)
      with True Suc.prems have res: "res = Inl x" by simp
      from invoke_trace [OF Inl] consider
        e where "trace (final res) = trace s @ [e]" "ev_phase e = ph" "ev_round e = rnd"
          "ev_task e = ?t" "ev_array e = r" "ev_live e = live_refs s"
        | "trace (final res) = trace s"
        using res by auto
      then show ?thesis
      proof cases
        case 1
        have "map ev_task [e] = take 1 (drop i (arrays s r))"
          using 1 dr by simp
        with 1 nl res show ?thesis
          by (intro exI [where x = "[e]"]) (auto simp: iterates_live_def)
      next
        case 2
        with res show ?thesis
          by (intro exI [where x = "[]"]) (auto intro: exI [where x = 0])
      qed
    next
      case (Inr s1)
      with True Suc.prems have run: "run_tasks P n ph rnd r (Suc i) s1 = Some res" by simp
      from heap_ok_invoke [of s P ph rnd r ?t] Inr Suc.prems(1,2)
      have s1: "well_formed s1" "detached r s1" "arrays s1 r = arrays s r"
        by (auto simp: heap_ok_def)
      from Inr obtain e where e: "trace s1 = trace s @ [e]" "ev_phase e = ph" "ev_round e = rnd"
        "ev_task e = ?t" "ev_array e = r" "ev_live e = live_refs s"
        by (rule invoke_trace_Inr)
      from Suc.IH [OF s1(1,2) run, unfolded s1(3)] obtain evs
        where evs: "trace (final res) = trace s1 @ evs"
          "\<forall>e \<in> set evs. ev_phase e = ph \<and> ev_round e = rnd \<and> ev_array e = r \<and> \<not> iterates_live e"
          "\<exists>k. map ev_task evs = take k (drop (Suc i) (arrays s r))"
          "\<forall>s'. res = Inr s' \<longrightarrow> map ev_task evs = drop (Suc i) (arrays s r)"
        by blast
      from evs(3) obtain k where k: "map ev_task evs = take k (drop (Suc i) (arrays s r))" ..
      have "map ev_task (e # evs) = take (Suc k) (drop i (arrays s r))"
        using e k dr by simp
      moreover have "\<forall>s'. res = Inr s' \<longrightarrow> map ev_task (e # evs) = drop i (arrays s r)"
        using e evs(4) dr by simp
      moreover have "trace (final res) = trace s @ e # evs"
        using e evs(1) by simp
      moreover have "\<forall>x \<in> set (e # evs).
          ev_phase x = ph \<and> ev_round x = rnd \<and> ev_array x = r \<and> \<not> iterates_live x"
        using e evs(2) nl by (auto simp: iterates_live_def)
      ultimately show ?thesis by blast
    qed
  qed
qed

lemma run_tasks_detached_returns:
  assumes "well_formed s" and "detached r s" and "length (arrays s r) - i < n"
  shows "run_tasks P n ph rnd r i s \<noteq> None"
  using assms
proof (induction n arbitrary: i s)
  case 0
  then show ?case by simp
next
  case (Suc n)
  show ?case
  proof (cases "i < length (arrays s r)")
    case False
    then show ?thesis by simp
  next
    case True
    show ?thesis
    proof (cases "invoke P ph rnd r (arrays s r ! i) s")
      case (Inl x)
      with True show ?thesis by simp
    next
      case (Inr s1)
      from heap_ok_invoke [of s P ph rnd r "arrays s r ! i"] Inr Suc.prems(1,2)
      have s1: "well_formed s1" "detached r s1" "arrays s1 r = arrays s r"
        by (auto simp: heap_ok_def)
      with Suc.prems(3) True have "length (arrays s1 r) - Suc i < n" by simp
      with s1 have "run_tasks P n ph rnd r (Suc i) s1 \<noteq> None" by (intro Suc.IH)
      with True Inr show ?thesis by simp
    qed
  qed
qed

text \<open>The first task of a loop starts with the flags the loop started with.\<close>

lemma run_tasks_first_flags:
  assumes "run_tasks P n ph rnd r i s = Some res"
    and "trace (final res) = trace s @ e # evs"
  shows "ev_flags e = flags s"
proof (cases n)
  case 0
  with assms show ?thesis by simp
next
  case (Suc m)
  show ?thesis
  proof (cases "i < length (arrays s r)")
    case False
    with Suc assms show ?thesis by auto
  next
    case True
    let ?t = "arrays s r ! i"
    show ?thesis
    proof (cases "invoke P ph rnd r ?t s")
      case (Inl x)
      with True Suc assms(1) have "res = Inl x" by simp
      with invoke_trace [OF Inl] assms(2) show ?thesis by auto
    next
      case (Inr s1)
      with True Suc assms(1) have "run_tasks P m ph rnd r (Suc i) s1 = Some res" by simp
      then have "run_rel s1 (final res)"
        by (rule closed_run_tasks [OF closed_run_rel])
      then obtain evs' where "trace (final res) = trace s1 @ evs'"
        by (auto simp: run_rel_def)
      moreover from Inr obtain e' where "trace s1 = trace s @ [e']" "ev_flags e' = flags s"
        by (rule invoke_trace_Inr)
      ultimately show ?thesis using assms(2) by simp
    qed
  qed
qed

section \<open>The macrotask flush\<close>

lemma well_formed_queues:
  assumes "well_formed s"
  shows "microtasks s \<noteq> macrotasks s" "microtasks s < fresh s" "macrotasks s < fresh s"
    and "f = cur_frame s \<or> f = next_frame s \<Longrightarrow> r \<in> set (frame_refs (frames s f)) \<Longrightarrow>
      r \<noteq> microtasks s \<and> r \<noteq> macrotasks s"
  using assms by (auto simp: well_formed_def live_refs_def)

lemma frame_push_arrays:
  "q \<noteq> fresh s \<Longrightarrow> gt (frames s f) \<noteq> Some q \<Longrightarrow> arrays (frame_push f gt st cb s) q = arrays s q"
  by (auto simp: frame_push_def case_prod_unfold split: option.splits)

lemma frame_push_fields [simp]:
  "flags (frame_push f gt st cb s) = flags s"
  "microtasks (frame_push f gt st cb s) = microtasks s"
  "macrotasks (frame_push f gt st cb s) = macrotasks s"
  by (simp_all add: frame_push_def case_prod_unfold split: option.splits)

lemma set_frame_flag_fields [simp]:
  "flags (set_frame_flag f m s) = flags s" "arrays (set_frame_flag f m s) = arrays s"
  "microtasks (set_frame_flag f m s) = microtasks s"
  "macrotasks (set_frame_flag f m s) = macrotasks s"
  "fresh (set_frame_flag f m s) = fresh s"
  "frames (set_frame_flag f m s) = (frames s)(f := (frames s f)\<lparr>frame_flags := frame_flags (frames s f) OR m\<rparr>)"
  by (simp_all add: set_frame_flag_def)

lemma apply_frame_op_fields [simp]:
  "flags (apply_frame_op f op s) = flags s"
  "microtasks (apply_frame_op f op s) = microtasks s"
  "macrotasks (apply_frame_op f op s) = macrotasks s"
  by (cases op; simp add: frame_write_def frame_read_def frame_after_def split: option.splits)+

text \<open>An append to a frame leaves the two queues alone.\<close>

lemma apply_frame_op_queue:
  assumes wf: "well_formed s" and f: "f = cur_frame s \<or> f = next_frame s"
    and q: "q = microtasks s \<or> q = macrotasks s"
  shows "arrays (apply_frame_op f op s) q = arrays s q"
proof -
  from q have fr: "q \<noteq> fresh s"
    using well_formed_queues(2,3) [OF wf] by auto
  have nf: "r \<noteq> q" if "r \<in> set (frame_refs (frames s f))" for r
    using well_formed_queues(4) [OF wf f that] q by blast
  show ?thesis
  proof (cases op)
    case (Write cb prio)
    show ?thesis
    proof (cases prio)
      case None
      have "writeTasks (frames (set_frame_flag f WRITE s) f) \<noteq> Some q"
        using nf frame_refs_field(1) by fastforce
      with fr Write None show ?thesis
        by (simp add: frame_write_def frame_push_arrays)
    next
      case (Some p)
      let ?s2 = "upd_frame f (\<lambda>fr. fr\<lparr>writeTaskGroups := pad_groups p (writeTaskGroups fr)\<rparr>)
               (set_frame_flag f WRITE_PRIO s)"
      have "frame_refs (frames ?s2 f) = frame_refs (frames s f)"
        by (simp add: frame_refs_def)
      moreover have "p < length (writeTaskGroups (frames ?s2 f))"
        by (simp add: length_pad_groups)
      ultimately have "writeTaskGroups (frames ?s2 f) ! p \<noteq> Some q"
        using nf frame_refs_field(4) by metis
      moreover have "q \<noteq> fresh ?s2" using fr by simp
      ultimately have "arrays (frame_push f (\<lambda>fr. writeTaskGroups fr ! p)
            (\<lambda>r fr. fr\<lparr>writeTaskGroups := (writeTaskGroups fr)[p := Some r]\<rparr>) cb ?s2) q
          = arrays ?s2 q"
        by (rule frame_push_arrays [rotated])
      with Write Some show ?thesis by (simp add: frame_write_def)
    qed
  next
    case (Read cb)
    have "readTasks (frames (set_frame_flag f READ s) f) \<noteq> Some q"
      using nf frame_refs_field(2) by fastforce
    with fr Read show ?thesis
      by (simp add: frame_read_def frame_push_arrays)
  next
    case (After cb)
    have "afterTasks (frames (set_frame_flag f AFTER s) f) \<noteq> Some q"
      using nf frame_refs_field(3) by fastforce
    with fr After show ?thesis
      by (simp add: frame_after_def frame_push_arrays)
  qed
qed

lemma macro_inv_refl [simp]: "macro_inv s s"
  by (simp add: macro_inv_def)

lemma macro_inv_trans: "macro_inv a b \<Longrightarrow> macro_inv b c \<Longrightarrow> macro_inv a c"
  by (auto simp: macro_inv_def)

lemma macro_inv_exec_action: "macro_inv s (final (exec_action a s))"
proof (induction a arbitrary: s)
  case (ScheduleMicrotask cb)
  show ?case
    using heap_ok_scheduleMicrotask [of s cb] well_formed_queues(1) [of s]
    by (auto simp: macro_inv_def macro_armed_def heap_ok_def scheduleMicrotask_def Let_def)
next
  case (ScheduleMacrotask cb)
  show ?case
    using heap_ok_scheduleMacrotask [of s cb]
    by (auto simp: macro_inv_def macro_armed_def heap_ok_def scheduleMacrotask_def Let_def)
next
  case (OnNextFrame op)
  let ?s1 = "snd (nextFrame s)"
  have 1: "macro_inv s ?s1"
    using heap_ok_nextFrame [of s]
    by (auto simp: macro_inv_def macro_armed_def heap_ok_def nextFrame_def)
  have "macro_inv ?s1 (apply_frame_op (next_frame s) op ?s1)"
    using heap_ok_apply_frame_op [of "next_frame s" ?s1 op]
      apply_frame_op_queue [of ?s1 "next_frame s" "macrotasks ?s1" op]
    by (auto simp: macro_inv_def macro_armed_def heap_ok_def)
  with 1 show ?case
    by (simp add: case_prod_unfold Let_def) (blast intro: macro_inv_trans)
next
  case (OnCurrentFrame op)
  show ?case
    using heap_ok_apply_frame_op [of "cur_frame s" s op]
      apply_frame_op_queue [of s "cur_frame s" "macrotasks s" op]
    by (auto simp: macro_inv_def macro_armed_def heap_ok_def currentFrame_def)
next
  case Throw
  show ?case by simp
next
  case (Once k a)
  have "macro_inv s (s\<lparr>fired := insert k (fired s)\<rparr>)"
    using heap_ok_fired [of s] by (auto simp: macro_inv_def macro_armed_def heap_ok_def)
  with Once.IH [of "s\<lparr>fired := insert k (fired s)\<rparr>"] show ?case
    by (auto intro: macro_inv_trans)
qed

lemma macro_inv_exec_actions: "macro_inv s (final (exec_actions as s))"
proof (induction as arbitrary: s)
  case Nil
  show ?case by simp
next
  case (Cons a as)
  show ?case
  proof (cases "exec_action a s")
    case (Inl e)
    with macro_inv_exec_action [of s a] show ?thesis by simp
  next
    case (Inr s1)
    with macro_inv_exec_action [of s a] Cons.IH [of s1] show ?thesis
      by (auto intro: macro_inv_trans)
  qed
qed

lemma macro_inv_log_event [simp]: "macro_inv s (log_event ph rnd r t s)"
  using heap_ok_log_event [of s ph rnd r t]
  by (auto simp: macro_inv_def macro_armed_def heap_ok_def log_event_def)

lemma macro_inv_invoke: "macro_inv s (final (invoke P ph rnd r t s))"
  by (auto simp: invoke_def split: task.splits
      intro!: macro_inv_trans [OF macro_inv_log_event macro_inv_exec_actions])

lemma macro_inv_run_tasks: "run_tasks P n ph rnd r i s = Some res \<Longrightarrow> macro_inv s (final res)"
  by (rule run_tasks_rel [where R = macro_inv]) (auto intro: macro_inv_trans macro_inv_invoke)

text \<open>\<^verbatim>\<open>self._macrotasks = []\<close>: the old array is no longer reachable.\<close>

lemma detach_macrotasks:
  assumes "well_formed s"
  shows "well_formed ((snd (new_array s))\<lparr>macrotasks := fresh s\<rparr>)"
    and "detached (macrotasks s) ((snd (new_array s))\<lparr>macrotasks := fresh s\<rparr>)"
  using assms by (auto simp: well_formed_def detached_def live_refs_def less_Suc_eq)

lemma well_formed_flags [simp]: "well_formed (s\<lparr>flags := x\<rparr>) = well_formed s"
  by (simp add: well_formed_def live_refs_def)

lemma well_formed_finish [simp]: "well_formed (finish m s) = well_formed s"
  by (simp add: well_formed_def live_refs_def finish_def)

lemma macro_start_fields [simp]:
  "trace (macro_start s) = trace s" "arrays (macro_start s) = arrays s"
  "macrotasks (macro_start s) = macrotasks s" "fresh (macro_start s) = fresh s"
  "macrotask_requests (macro_start s) = macrotask_requests s"
  "well_formed (macro_start s) = well_formed s"
  "flags (macro_start s) AND MACROTASK_PENDING = 0"
  by (simp_all add: macro_start_def MACROTASK_PENDING_def RUNNING_def bit.conj_disj_distrib2
      word_bw_assocs)

lemma finish_fields [simp]:
  "arrays (finish m s) = arrays s" "macrotasks (finish m s) = macrotasks s"
  "microtasks (finish m s) = microtasks s"
  "macrotask_requests (finish m s) = macrotask_requests s"
  "flags (finish m s) = flags s AND NOT m" "clock (finish m s) = clock_tick (clock s)"
  by (simp_all add: finish_def)

lemma running_not_pending [simp]:
  "RUNNING AND MACROTASK_PENDING = 0" "RUNNING AND MICROTASK_PENDING = 0"
  "RUNNING AND FRAMETASK_PENDING = 0"
  by (simp_all add: RUNNING_def MACROTASK_PENDING_def MICROTASK_PENDING_def FRAMETASK_PENDING_def)

text \<open>What the macrotask flush does when its loop returns normally.\<close>

lemma macrotaskFlush_Inr:
  assumes wf: "well_formed s" and run: "macrotaskFlush P n s = Some (Inr s')"
  shows "map ev_task (new_events s s') = arrays s (macrotasks s) \<and>
     (\<forall>e \<in> set (new_events s s'). ev_phase e = MacroPhase \<and> \<not> iterates_live e) \<and>
     (new_events s s' = [] \<or> ev_flags (hd (new_events s s')) AND MACROTASK_PENDING = 0) \<and>
     (arrays s' (macrotasks s') = [] \<or>
        flags s' AND MACROTASK_PENDING \<noteq> 0 \<and>
        macrotask_requests s' = macrotask_requests s + 1) \<and>
     well_formed s'"
proof (cases "arrays s (macrotasks s) = []")
  case True
  with run have "s' = finish RUNNING (macro_start s)"
    by (simp add: macrotaskFlush_unfold)
  with True wf show ?thesis by (simp add: new_events_def)
next
  case False
  let ?s0 = "macro_start s"
  let ?r = "macrotasks s"
  let ?s2 = "(snd (new_array ?s0))\<lparr>macrotasks := fresh ?s0\<rparr>"
  from False run obtain s4 where rt: "run_tasks P n MacroPhase 1 ?r 0 ?s2 = Some (Inr s4)"
    and s': "s' = finish RUNNING s4"
    by (auto simp: macrotaskFlush_unfold and_then_Some)
  from wf have wf0: "well_formed ?s0" by simp
  from detach_macrotasks [OF wf0] have wf2: "well_formed ?s2" and det: "detached ?r ?s2"
    by simp_all
  from wf have "?r \<noteq> fresh s" using well_formed_queues(3) by fastforce
  then have arr: "arrays ?s2 ?r = arrays s ?r" by simp
  from run_tasks_detached [OF wf2 det rt] arr obtain evs
    where evs: "trace s4 = trace ?s2 @ evs"
      "\<forall>e \<in> set evs. ev_phase e = MacroPhase \<and> ev_round e = 1 \<and> ev_array e = ?r \<and> \<not> iterates_live e"
      "map ev_task evs = arrays s ?r"
    by auto
  from evs(1) s' have ne: "new_events s s' = evs"
    by (simp add: new_events_def)
  have first: "evs = [] \<or> ev_flags (hd evs) AND MACROTASK_PENDING = 0"
  proof (cases evs)
    case Nil
    then show ?thesis by simp
  next
    case (Cons e es)
    with run_tasks_first_flags [OF rt, of e es] evs(1) have "ev_flags e = flags ?s2" by simp
    with Cons show ?thesis by simp
  qed
  have "macro_armed ?s2" by (simp add: macro_armed_def)
  with macro_inv_run_tasks [OF rt] wf2 have wf4: "well_formed s4" and arm: "macro_armed s4"
    by (simp_all add: macro_inv_def)
  from stable_run_tasks [OF rt]
  have "arm_rel MACROTASK_PENDING macrotask_requests ?s2 s4"
    by (simp add: stable_def regs_rel_def)
  then have "flags s4 AND MACROTASK_PENDING = 0 \<or>
      macrotask_requests s4 = macrotask_requests s + 1"
    by (auto simp: arm_rel_def new_array_def)
  with arm have "arrays s4 (macrotasks s4) = [] \<or>
      flags s4 AND MACROTASK_PENDING \<noteq> 0 \<and> macrotask_requests s4 = macrotask_requests s + 1"
    by (auto simp: macro_armed_def)
  with s' have "arrays s' (macrotasks s') = [] \<or>
      flags s' AND MACROTASK_PENDING \<noteq> 0 \<and> macrotask_requests s' = macrotask_requests s + 1"
    by (simp add: and_not_disjoint)
  with ne evs first wf4 s' show ?thesis by simp
qed

lemma macrotaskFlush_returns:
  assumes wf: "well_formed s" and n: "length (arrays s (macrotasks s)) < n"
  shows "macrotaskFlush P n s \<noteq> None"
proof (cases "arrays s (macrotasks s) = []")
  case True
  then show ?thesis by (simp add: macrotaskFlush_unfold)
next
  case False
  let ?s0 = "macro_start s"
  let ?s2 = "(snd (new_array ?s0))\<lparr>macrotasks := fresh ?s0\<rparr>"
  from wf have wf0: "well_formed ?s0" by simp
  from detach_macrotasks [OF wf0] have wf2: "well_formed ?s2"
    and det: "detached (macrotasks s) ?s2"
    by simp_all
  from wf have "macrotasks s \<noteq> fresh s" using well_formed_queues(3) by fastforce
  with n have "length (arrays ?s2 (macrotasks s)) - 0 < n" by simp
  with wf2 det have "run_tasks P n MacroPhase 1 (macrotasks s) 0 ?s2 \<noteq> None"
    by (rule run_tasks_detached_returns)
  with False show ?thesis
    by (auto simp: macrotaskFlush_unfold and_then_def split: sum.splits)
qed

section \<open>The microtask flush\<close>

lemma wave_append [simp]: "wave (xs @ ys) k = wave xs k @ wave ys k"
  by (simp add: wave_def)

lemma wave_Nil [simp]: "wave [] k = []"
  by (simp add: wave_def)



lemma queue_rel_refl [simp]: "queue_rel s s"
  by (simp add: queue_rel_def)





lemma sorted_map_const: "\<forall>e \<in> set xs. f e = (k::nat) \<Longrightarrow> sorted (map f xs)"
  by (induction xs) auto


lemma micro_start_fields [simp]:
  "trace (micro_start s) = trace s" "arrays (micro_start s) = arrays s"
  "microtasks (micro_start s) = microtasks s" "fresh (micro_start s) = fresh s"
  "well_formed (micro_start s) = well_formed s"
  by (simp_all add: micro_start_def)

lemma and_not_self [simp]:
  "(x AND NOT (m OR k)) AND m = (0::32 word)"
  "(x AND NOT m AND NOT k) AND m = (0::32 word)"
  "((x AND NOT m) AND NOT k) AND m = (0::32 word)"
  by (rule bit_eqI; auto simp: bit_and_iff bit_or_iff bit_not_iff)+



section \<open>The priority write phase\<close>

lemma grows_refl [simp]: "grows s s"
  by (simp add: grows_def)

lemma grows_trans:
  assumes "grows a b" and "grows b c"
  shows "grows a c"
  unfolding grows_def
proof (intro conjI allI impI)
  from assms show "fresh a \<le> fresh c" by (simp add: grows_def)
next
  fix r assume r: "r < fresh a"
  with assms(1) obtain ys where ys: "arrays b r = arrays a r @ ys"
    unfolding grows_def by blast
  from r assms(1) have "r < fresh b" by (simp add: grows_def)
  with assms(2) obtain zs where "arrays c r = arrays b r @ zs"
    unfolding grows_def by blast
  with ys have "arrays c r = arrays a r @ (ys @ zs)" by simp
  then show "\<exists>ys. arrays c r = arrays a r @ ys" ..
qed

lemma grows_same: "fresh s' = fresh s \<Longrightarrow> arrays s' = arrays s \<Longrightarrow> grows s s'"
  by (simp add: grows_def)

lemma grows_push [simp]: "grows s (push r cb s)"
  by (simp add: grows_def)

lemma grows_upd_frame [simp]: "grows s (upd_frame f g s)"
  by (simp add: grows_same)

lemma grows_new_array [simp]: "grows s (snd (new_array s))"
  by (simp add: grows_def)

lemma grows_frame_push [simp]: "grows s (frame_push f gt st cb s)"
proof (cases "gt (frames s f)")
  case None
  have "grows s (push (fresh s) cb (upd_frame f (st (fresh s)) (snd (new_array s))))"
    by (rule grows_trans [OF grows_new_array grows_trans [OF grows_upd_frame grows_push]])
  with None show ?thesis by (simp add: frame_push_def case_prod_unfold)
next
  case (Some r)
  then show ?thesis by (simp add: frame_push_def)
qed

lemma grows_set_frame_flag [simp]: "grows s (set_frame_flag f m s)"
  by (simp add: set_frame_flag_def)

lemma grows_apply_frame_op [simp]: "grows s (apply_frame_op f op s)"
proof (cases op)
  case (Write cb prio)
  show ?thesis
  proof (cases prio)
    case None
    with Write show ?thesis
      by (simp add: frame_write_def grows_trans [OF grows_set_frame_flag grows_frame_push])
  next
    case (Some p)
    with Write show ?thesis
      by (simp add: frame_write_def
          grows_trans [OF grows_set_frame_flag grows_trans [OF grows_upd_frame grows_frame_push]])
  qed
next
  case (Read cb)
  then show ?thesis
    by (simp add: frame_read_def grows_trans [OF grows_set_frame_flag grows_frame_push])
next
  case (After cb)
  then show ?thesis
    by (simp add: frame_after_def grows_trans [OF grows_set_frame_flag grows_frame_push])
qed

lemma grows_exec_action: "grows s (final (exec_action a s))"
proof (induction a arbitrary: s)
  case (ScheduleMicrotask cb)
  show ?case by (simp add: grows_def scheduleMicrotask_def Let_def)
next
  case (ScheduleMacrotask cb)
  show ?case by (simp add: grows_def scheduleMacrotask_def Let_def)
next
  case (OnNextFrame op)
  have "grows s (snd (nextFrame s))"
    by (rule grows_same) (simp_all add: nextFrame_def)
  then have "grows s (apply_frame_op (next_frame s) op (snd (nextFrame s)))"
    using grows_apply_frame_op by (rule grows_trans)
  then show ?case by (simp add: case_prod_unfold Let_def)
next
  case (OnCurrentFrame op)
  show ?case by simp
next
  case Throw
  show ?case by simp
next
  case (Once k a)
  have "grows s (s\<lparr>fired := insert k (fired s)\<rparr>)"
    by (rule grows_same) simp_all
  with Once.IH [of "s\<lparr>fired := insert k (fired s)\<rparr>"] show ?case
    by (auto intro: grows_trans)
qed

lemma grows_exec_actions: "grows s (final (exec_actions as s))"
proof (induction as arbitrary: s)
  case Nil
  show ?case by simp
next
  case (Cons a as)
  show ?case
  proof (cases "exec_action a s")
    case (Inl e)
    with grows_exec_action [of s a] show ?thesis by simp
  next
    case (Inr s1)
    with grows_exec_action [of s a] Cons.IH [of s1] show ?thesis
      by (auto intro: grows_trans)
  qed
qed

lemma grows_invoke: "grows s (final (invoke P ph rnd r t s))"
proof -
  have "grows s (log_event ph rnd r t s)"
    by (rule grows_same) (simp_all add: log_event_def)
  then show ?thesis
    by (auto simp: invoke_def split: task.splits intro: grows_trans [OF _ grows_exec_actions])
qed

lemma closed_grows: "closed_rel P grows"
  unfolding closed_rel_def by (auto intro: grows_trans grows_invoke)

lemma at_rank_append [simp]: "at_rank (xs @ ys) k = at_rank xs k @ at_rank ys k"
  by (simp add: at_rank_def)

lemma at_rank_Nil [simp]: "at_rank [] k = []"
  by (simp add: at_rank_def)

lemma at_rank_all: "\<forall>e \<in> set xs. ev_phase e = PrioWritePhase k \<Longrightarrow> at_rank xs k = map ev_task xs"
  by (simp add: at_rank_def)

lemma at_rank_none: "\<forall>e \<in> set xs. ev_phase e \<noteq> PrioWritePhase k \<Longrightarrow> at_rank xs k = []"
  by (simp add: at_rank_def)

lemma slots_rel_refl [simp]: "slots_rel f s s"
  by (simp add: slots_rel_def)

lemma slots_rel_trans: "slots_rel f a b \<Longrightarrow> slots_rel f b c \<Longrightarrow> slots_rel f a c"
  unfolding slots_rel_def by blast

lemma slots_rel_same: "frames s' f = frames s f \<Longrightarrow> slots_rel f s s'"
  by (simp add: slots_rel_def)

lemma slots_rel_frame_push:
  assumes "\<And>r fr. writeTaskGroups (st r fr) = writeTaskGroups fr"
  shows "slots_rel f s (frame_push f' gt st cb s)"
  using assms by (auto simp: slots_rel_def frame_push_def case_prod_unfold split: option.splits)

lemma slots_rel_set_frame_flag [simp]: "slots_rel f s (set_frame_flag f' m s)"
  by (simp add: slots_rel_def set_frame_flag_def)

lemma slots_rel_pad:
  "slots_rel f s (upd_frame f' (\<lambda>fr. fr\<lparr>writeTaskGroups := pad_groups p (writeTaskGroups fr)\<rparr>) s)"
  by (auto simp: slots_rel_def pad_groups_def nth_append)

lemma slots_rel_push_slot:
  "slots_rel f s (frame_push f' (\<lambda>fr. writeTaskGroups fr ! p)
       (\<lambda>r fr. fr\<lparr>writeTaskGroups := (writeTaskGroups fr)[p := Some r]\<rparr>) cb s)"
  by (auto simp: slots_rel_def frame_push_def case_prod_unfold
      split: option.splits)
     (metis nth_list_update_neq option.distinct(1))

lemma slots_rel_apply_frame_op: "slots_rel f s (apply_frame_op f' op s)"
proof (cases op)
  case (Write cb prio)
  show ?thesis
  proof (cases prio)
    case None
    with Write show ?thesis
      by (auto simp: frame_write_def
          intro!: slots_rel_trans [OF slots_rel_set_frame_flag slots_rel_frame_push])
  next
    case (Some p)
    with Write show ?thesis
      by (auto simp: frame_write_def
          intro!: slots_rel_trans [OF slots_rel_set_frame_flag
                    slots_rel_trans [OF slots_rel_pad slots_rel_push_slot]])
  qed
next
  case (Read cb)
  then show ?thesis
    by (auto simp: frame_read_def
        intro!: slots_rel_trans [OF slots_rel_set_frame_flag slots_rel_frame_push])
next
  case (After cb)
  then show ?thesis
    by (auto simp: frame_after_def
        intro!: slots_rel_trans [OF slots_rel_set_frame_flag slots_rel_frame_push])
qed

lemma slots_rel_exec_action: "slots_rel f s (final (exec_action a s))"
proof (induction a arbitrary: s)
  case (ScheduleMicrotask cb)
  show ?case by (simp add: slots_rel_def scheduleMicrotask_def Let_def)
next
  case (ScheduleMacrotask cb)
  show ?case by (simp add: slots_rel_def scheduleMacrotask_def Let_def)
next
  case (OnNextFrame op)
  have "slots_rel f s (snd (nextFrame s))"
    by (rule slots_rel_same) (simp add: nextFrame_def)
  then have "slots_rel f s (apply_frame_op (next_frame s) op (snd (nextFrame s)))"
    using slots_rel_apply_frame_op by (rule slots_rel_trans)
  then show ?case by (simp add: case_prod_unfold Let_def)
next
  case (OnCurrentFrame op)
  show ?case by (simp add: slots_rel_apply_frame_op)
next
  case Throw
  show ?case by simp
next
  case (Once k a)
  have "slots_rel f s (s\<lparr>fired := insert k (fired s)\<rparr>)"
    by (rule slots_rel_same) simp
  with Once.IH [of "s\<lparr>fired := insert k (fired s)\<rparr>"] show ?case
    by (auto intro: slots_rel_trans)
qed

lemma slots_rel_exec_actions: "slots_rel f s (final (exec_actions as s))"
proof (induction as arbitrary: s)
  case Nil
  show ?case by simp
next
  case (Cons a as)
  show ?case
  proof (cases "exec_action a s")
    case (Inl e)
    with slots_rel_exec_action [of f s a] show ?thesis by simp
  next
    case (Inr s1)
    with slots_rel_exec_action [of f s a] Cons.IH [of s1] show ?thesis
      by (auto intro: slots_rel_trans)
  qed
qed

lemma slots_rel_invoke: "slots_rel f s (final (invoke P ph rnd r t s))"
proof -
  have "slots_rel f s (log_event ph rnd r t s)"
    by (rule slots_rel_same) (simp add: log_event_def)
  then show ?thesis
    by (auto simp: invoke_def split: task.splits
        intro: slots_rel_trans [OF _ slots_rel_exec_actions])
qed

lemma slots_rel_run_tasks: "run_tasks P n ph rnd r i s = Some res \<Longrightarrow> slots_rel f s (final res)"
  by (rule run_tasks_rel [where R = "slots_rel f"]) (auto intro: slots_rel_trans slots_rel_invoke)

text \<open>\<^verbatim>\<open>groups[i] = null\<close>: the group is no longer reachable.\<close>

lemma detach_slot:
  assumes wf: "well_formed s" and f: "f = cur_frame s \<or> f = next_frame s"
    and i: "i < length (writeTaskGroups (frames s f))" "writeTaskGroups (frames s f) ! i = Some g"
  defines "s1 \<equiv> upd_frame f (\<lambda>fr. fr\<lparr>writeTaskGroups := (writeTaskGroups fr)[i := None]\<rparr>) s"
  shows "heap_ok s s1" and "well_formed s1" and "detached g s1"
proof -
  show h: "heap_ok s s1"
    unfolding s1_def by (rule heap_ok_upd_frame) (simp_all add: frame_refs_null_slot)
  with wf show wf1: "well_formed s1" by (simp add: heap_ok_def)
  let ?fr = "frames s f"
  from i have gf: "g \<in> set (frame_refs ?fr)" by (rule frame_refs_field(4))
  with f have gl: "g \<in> set (live_refs s)" by (rule frame_refs_live)
  with wf have lt: "g < fresh s" by (simp add: well_formed_def)
  from wf have ne: "cur_frame s \<noteq> next_frame s" and dl: "distinct (live_refs s)"
    by (simp_all add: well_formed_def)
  from dl f have df: "distinct (frame_refs ?fr)" by (auto simp: live_refs_def)
  have nf: "g \<notin> set (frame_refs (?fr\<lparr>writeTaskGroups := (writeTaskGroups ?fr)[i := None]\<rparr>))"
    using df i by (rule frame_refs_null_slot(3))
  have "g \<notin> set (live_refs s1)"
  proof (cases "f = cur_frame s")
    case True
    with ne have "live_refs s1 = [microtasks s, macrotasks s] @
        frame_refs (?fr\<lparr>writeTaskGroups := (writeTaskGroups ?fr)[i := None]\<rparr>) @
        frame_refs (frames s (next_frame s))"
      by (simp add: s1_def live_refs_def)
    moreover from dl gf True have "g \<noteq> microtasks s" "g \<noteq> macrotasks s"
      "g \<notin> set (frame_refs (frames s (next_frame s)))"
      by (auto simp: live_refs_def)
    ultimately show ?thesis using nf by simp
  next
    case False
    with f have fn: "f = next_frame s" by simp
    with ne have "live_refs s1 = [microtasks s, macrotasks s] @
        frame_refs (frames s (cur_frame s)) @
        frame_refs (?fr\<lparr>writeTaskGroups := (writeTaskGroups ?fr)[i := None]\<rparr>)"
      by (simp add: s1_def live_refs_def)
    moreover from dl gf fn have "g \<noteq> microtasks s" "g \<noteq> macrotasks s"
      "g \<notin> set (frame_refs (frames s (cur_frame s)))"
      by (auto simp: live_refs_def)
    ultimately show ?thesis using nf by simp
  qed
  with lt show "detached g s1" by (simp add: detached_def s1_def)
qed

lemma sorted_map_const_append:
  assumes "\<forall>e \<in> set xs. f e = (k::nat)" and "\<forall>e \<in> set ys. k \<le> f e" and "sorted (map f ys)"
  shows "sorted (map f (xs @ ys))"
  using assms sorted_map_const [of xs f k] by (auto simp: sorted_append)

lemma run_groups_structure:
  assumes "well_formed s" and "f = cur_frame s \<or> f = next_frame s"
    and "run_groups P n rnd f i s = Some (Inr s')"
  shows "\<exists>evs. trace s' = trace s @ evs \<and>
     (\<forall>e \<in> set evs. ev_phase e = PrioWritePhase (prio_rank e) \<and> i \<le> prio_rank e \<and>
        ev_round e = rnd \<and> \<not> iterates_live e) \<and>
     sorted (map prio_rank evs) \<and>
     (\<forall>e \<in> set evs. at_rank evs (prio_rank e) = arrays s' (ev_array e)) \<and>
     (\<forall>k g. i \<le> k \<and> k < length (writeTaskGroups (frames s f)) \<and>
        writeTaskGroups (frames s f) ! k = Some g \<longrightarrow> at_rank evs k = arrays s' g) \<and>
     heap_ok s s'"
  using assms
proof (induction n arbitrary: i s)
  case 0
  then show ?case by simp
next
  case (Suc n)
  let ?gs = "writeTaskGroups (frames s f)"
  note wf = Suc.prems(1) and f = Suc.prems(2)
  show ?case
  proof (cases "i < length ?gs")
    case False
    with Suc.prems(3) have "s' = s" by simp
    with False show ?thesis by (intro exI [where x = "[]"]) auto
  next
    case len: True
    show ?thesis
    proof (cases "?gs ! i")
      case None
      with len Suc.prems(3) have "run_groups P n rnd f (Suc i) s = Some (Inr s')" by simp
      from Suc.IH [OF wf f this] obtain evs
        where evs: "trace s' = trace s @ evs"
          "\<forall>e \<in> set evs. ev_phase e = PrioWritePhase (prio_rank e) \<and> Suc i \<le> prio_rank e \<and>
              ev_round e = rnd \<and> \<not> iterates_live e"
          "sorted (map prio_rank evs)"
          "\<forall>e \<in> set evs. at_rank evs (prio_rank e) = arrays s' (ev_array e)"
          "\<forall>k g. Suc i \<le> k \<and> k < length ?gs \<and> ?gs ! k = Some g \<longrightarrow> at_rank evs k = arrays s' g"
          "heap_ok s s'"
        by blast
      have 5: "\<forall>k g. i \<le> k \<and> k < length ?gs \<and> ?gs ! k = Some g \<longrightarrow> at_rank evs k = arrays s' g"
        using evs(5) None by (metis Suc_leI le_neq_implies_less option.distinct(1))
      have 2: "\<forall>e \<in> set evs. ev_phase e = PrioWritePhase (prio_rank e) \<and> i \<le> prio_rank e \<and>
              ev_round e = rnd \<and> \<not> iterates_live e"
        using evs(2) by auto
      show ?thesis
        by (rule exI [where x = evs], intro conjI) (rule evs(1) 2 evs(3) evs(4) 5 evs(6))+
    next
      case (Some g0)
      let ?s1 = "upd_frame f (\<lambda>fr. fr\<lparr>writeTaskGroups := (writeTaskGroups fr)[i := None]\<rparr>) s"
      from len Some Suc.prems(3) obtain s2
        where rt: "run_tasks P n (PrioWritePhase i) rnd g0 0 ?s1 = Some (Inr s2)"
          and rest: "run_groups P n rnd f (Suc i) s2 = Some (Inr s')"
        by (auto simp: and_then_Some)
      note d = detach_slot [OF wf f len Some]
      from run_tasks_detached [OF d(2,3) rt] obtain evs1
        where evs1: "trace s2 = trace s @ evs1"
          "\<forall>e \<in> set evs1. ev_phase e = PrioWritePhase i \<and> ev_round e = rnd \<and> ev_array e = g0 \<and>
              \<not> iterates_live e"
          "map ev_task evs1 = arrays s g0"
        by auto
      from heap_ok_run_tasks [OF rt] d(2,3)
      have s2: "well_formed s2" "detached g0 s2" "arrays s2 g0 = arrays s g0"
        and h12: "heap_ok ?s1 s2"
        by (auto simp: heap_ok_def)
      from stable_run_tasks [OF rt] f have f2: "f = cur_frame s2 \<or> f = next_frame s2"
        by (simp add: stable_def)
      from Suc.IH [OF s2(1) f2 rest] obtain evs2
        where evs2: "trace s' = trace s2 @ evs2"
          "\<forall>e \<in> set evs2. ev_phase e = PrioWritePhase (prio_rank e) \<and> Suc i \<le> prio_rank e \<and>
              ev_round e = rnd \<and> \<not> iterates_live e"
          "sorted (map prio_rank evs2)"
          "\<forall>e \<in> set evs2. at_rank evs2 (prio_rank e) = arrays s' (ev_array e)"
          "\<forall>k g. Suc i \<le> k \<and> k < length (writeTaskGroups (frames s2 f)) \<and>
              writeTaskGroups (frames s2 f) ! k = Some g \<longrightarrow> at_rank evs2 k = arrays s' g"
          "heap_ok s2 s'"
        by blast
      from evs2(6) s2 have a0: "arrays s' g0 = arrays s g0"
        by (auto simp: heap_ok_def)
      have r1: "\<forall>e \<in> set evs1. prio_rank e = i"
        using evs1(2) by (simp add: prio_rank_def)
      have w1: "at_rank evs1 k = (if k = i then arrays s g0 else [])" for k
        using evs1(2,3) by (auto simp: at_rank_all at_rank_none)
      have w2: "at_rank evs2 i = []"
        using evs2(2) by (intro at_rank_none) (metis Suc_n_not_le_n phase.inject)
      let ?evs = "evs1 @ evs2"
      have 1: "trace s' = trace s @ ?evs"
        using evs1(1) evs2(1) by simp
      have 2: "\<forall>e \<in> set ?evs. ev_phase e = PrioWritePhase (prio_rank e) \<and> i \<le> prio_rank e \<and>
          ev_round e = rnd \<and> \<not> iterates_live e"
        using evs1(2) r1 evs2(2) by auto
      have 3: "sorted (map prio_rank ?evs)"
        using r1 evs2(2,3) by (intro sorted_map_const_append [where k = i]) auto
      have 4: "\<forall>e \<in> set ?evs. at_rank ?evs (prio_rank e) = arrays s' (ev_array e)"
      proof
        fix e assume "e \<in> set ?evs"
        then consider "e \<in> set evs1" | "e \<in> set evs2" by auto
        then show "at_rank ?evs (prio_rank e) = arrays s' (ev_array e)"
        proof cases
          case 1
          with evs1(2) r1 have "prio_rank e = i" "ev_array e = g0" by auto
          with w1 w2 a0 show ?thesis by simp
        next
          case 2
          with evs2(2) have "prio_rank e \<noteq> i" by auto
          with w1 evs2(4) 2 show ?thesis by simp
        qed
      qed
      have 5: "\<forall>k g. i \<le> k \<and> k < length ?gs \<and> ?gs ! k = Some g \<longrightarrow> at_rank ?evs k = arrays s' g"
      proof (intro allI impI)
        fix k g assume kg: "i \<le> k \<and> k < length ?gs \<and> ?gs ! k = Some g"
        show "at_rank ?evs k = arrays s' g"
        proof (cases "k = i")
          case True
          with kg Some w1 w2 a0 show ?thesis by simp
        next
          case False
          with kg have "k < length (writeTaskGroups (frames ?s1 f)) \<and>
              writeTaskGroups (frames ?s1 f) ! k = Some g"
            by simp
          moreover from slots_rel_run_tasks [OF rt, of f] have "slots_rel f ?s1 s2" by simp
          ultimately have "k < length (writeTaskGroups (frames s2 f)) \<and>
              writeTaskGroups (frames s2 f) ! k = Some g"
            unfolding slots_rel_def by blast
          with evs2(5) kg False have "at_rank evs2 k = arrays s' g" by simp
          with w1 False show ?thesis by simp
        qed
      qed
      have 6: "heap_ok s s'"
        using d(1) h12 evs2(6) by (blast intro: heap_ok_trans)
      show ?thesis
        by (rule exI [where x = ?evs], intro conjI) (rule 1 2 3 4 5 6)+
    qed
  qed
qed

text \<open>
  Claim C4, amended. One pass of the priority write phase of a frame flush (the statements
  under \<^verbatim>\<open>if ((frame.flags & WRITE_PRIO) !== 0)\<close>, which the \<^verbatim>\<open>while\<close> loop over
  \<open>WRITE_ANY\<close> repeats), on a well-formed scheduler and when it returns normally: the
  ranks of the tasks it ran never decrease along the trace, so within the pass every
  task of a rank has run before any task of a higher rank starts; no task runs from an array
  that is still live (the slot was nulled first); the tasks run at a rank are exactly the
  contents of the array they were run from, in arrival order; and for every slot that held a
  group when the phase started, the tasks run at its rank are that group, which still begins
  with the tasks it held at the start.
\<close>

theorem priority_groups_run_in_rank_order:
  assumes "well_formed s" and "f = cur_frame s"
    and "prio_write_step P n rnd f s = Some (Inr s')"
  shows "sorted (map prio_rank (new_events s s')) \<and>
     (\<forall>e \<in> set (new_events s s').
        ev_phase e = PrioWritePhase (prio_rank e) \<and> \<not> iterates_live e \<and>
        at_rank (new_events s s') (prio_rank e) = arrays s' (ev_array e)) \<and>
     (\<forall>k g. frame_flag_set f WRITE_PRIO s \<and> k < length (writeTaskGroups (frames s f)) \<and>
        writeTaskGroups (frames s f) ! k = Some g \<longrightarrow>
        at_rank (new_events s s') k = arrays s' g \<and> (\<exists>ys. arrays s' g = arrays s g @ ys))"
proof (cases "frame_flag_set f WRITE_PRIO s")
  case False
  with assms(3) have "s' = s" by (simp add: prio_write_step_def)
  with False show ?thesis by (simp add: new_events_def)
next
  case True
  let ?s1 = "clear_frame_flag f WRITE_PRIO s"
  let ?gs = "writeTaskGroups (frames s f)"
  from True assms(3) have run: "run_groups P n rnd f 0 ?s1 = Some (Inr s')"
    by (simp add: prio_write_step_def)
  from assms(1) have wf1: "well_formed ?s1"
    using heap_ok_clear_frame_flag [of s f WRITE_PRIO] by (simp add: heap_ok_def)
  have f1: "f = cur_frame ?s1 \<or> f = next_frame ?s1"
    using assms(2) by (simp add: clear_frame_flag_def)
  have gs1: "writeTaskGroups (frames ?s1 f) = ?gs"
    by (simp add: clear_frame_flag_def)
  from run_groups_structure [OF wf1 f1 run] obtain evs
    where evs: "trace s' = trace s @ evs"
      "\<forall>e \<in> set evs. ev_phase e = PrioWritePhase (prio_rank e) \<and> 0 \<le> prio_rank e \<and>
          ev_round e = rnd \<and> \<not> iterates_live e"
      "sorted (map prio_rank evs)"
      "\<forall>e \<in> set evs. at_rank evs (prio_rank e) = arrays s' (ev_array e)"
      "\<forall>k g. 0 \<le> k \<and> k < length ?gs \<and> ?gs ! k = Some g \<longrightarrow> at_rank evs k = arrays s' g"
    unfolding gs1 by (auto simp: clear_frame_flag_def)
  from evs(1) have ne: "new_events s s' = evs" by (simp add: new_events_def)
  have "grows ?s1 (final (Inr s'))"
    using closed_grows run by (rule closed_run_groups)
  then have gr: "grows s s'" by (simp add: grows_def clear_frame_flag_def)
  have pre: "\<exists>ys. arrays s' g = arrays s g @ ys" if "k < length ?gs" "?gs ! k = Some g" for k g
  proof -
    from that have "g \<in> set (frame_refs (frames s f))" by (rule frame_refs_field(4))
    with assms(2) have "g \<in> set (live_refs s)" by (simp add: live_refs_def)
    with assms(1) have "g < fresh s" by (simp add: well_formed_def)
    with gr show ?thesis by (simp add: grows_def)
  qed
  show ?thesis
    unfolding ne
  proof (intro conjI ballI allI impI)
    show "sorted (map prio_rank evs)" by (rule evs(3))
  next
    fix e assume e: "e \<in> set evs"
    with evs(2) show "ev_phase e = PrioWritePhase (prio_rank e)" and "\<not> iterates_live e"
      by blast+
    from e evs(4) show "at_rank evs (prio_rank e) = arrays s' (ev_array e)" by blast
  next
    fix k g
    assume a: "frame_flag_set f WRITE_PRIO s \<and> k < length ?gs \<and> ?gs ! k = Some g"
    with evs(5) show "at_rank evs k = arrays s' g" by simp
    from a show "\<exists>ys. arrays s' g = arrays s g @ ys" by (blast intro: pre)
  qed
qed

text \<open>The definitions that an evaluation of the model unfolds.\<close>

lemmas model_defs =
  new_scheduler_def new_frame_def run_api_def frame_start_def
  scheduleMicrotask_def scheduleMacrotask_def nextFrame_def currentFrame_def
  frame_write_def frame_read_def frame_after_def frame_push_def pad_groups_def
  set_frame_flag_def clear_frame_flag_def frame_flag_set_def upd_frame_def push_def new_array_def
  invoke_def log_event_def is_write_phase_def live_refs_def frame_refs_def
  prio_write_step_def plain_write_step_def handleAnimationFrame_def
  RUNNING_def MICROTASK_PENDING_def MACROTASK_PENDING_def FRAMETASK_PENDING_def
  WRITE_PRIO_def WRITE_def READ_def AFTER_def WRITE_ANY_def
  completes_def raises_def flush_events_def new_events_def final_def
  well_formed_def prio_rank_def numeral_eq_Suc Let_def

theorem priority_groups_run_in_rank_order_witness:
  "well_formed state_prio \<and>
   completes (prio_write_step prog_prio 5 1 (cur_frame state_prio) state_prio) \<and>
   map ev_task
     (flush_events state_prio (prio_write_step prog_prio 5 1 (cur_frame state_prio) state_prio))
     = [Component 0, Callback 1] \<and>
   map prio_rank
     (flush_events state_prio (prio_write_step prog_prio 5 1 (cur_frame state_prio) state_prio))
     = [0, 2] \<and>
   sorted (map prio_rank
     (flush_events state_prio (prio_write_step prog_prio 5 1 (cur_frame state_prio) state_prio)))"
proof -
  have wf: "well_formed state_prio"
    by (simp add: model_defs state_prio_def)
  have c: "completes (prio_write_step prog_prio 5 1 (cur_frame state_prio) state_prio)"
    by (simp add: model_defs state_prio_def prog_prio_def)
  then obtain s1
    where r: "prio_write_step prog_prio 5 1 (cur_frame state_prio) state_prio = Some (Inr s1)"
    by (rule completesE)
  have rest: "map ev_task
     (flush_events state_prio (prio_write_step prog_prio 5 1 (cur_frame state_prio) state_prio))
     = [Component 0, Callback 1]"
    "map prio_rank
     (flush_events state_prio (prio_write_step prog_prio 5 1 (cur_frame state_prio) state_prio))
     = [0, 2]"
    by (simp_all add: model_defs state_prio_def prog_prio_def)
  from priority_groups_run_in_rank_order [OF wf refl r]
  have "sorted (map prio_rank (new_events state_prio s1))" by simp
  with wf c r rest show ?thesis
    by (simp add: flush_events_def)
qed

subsection \<open>Rank order across the passes of the priority write phase\<close>

text \<open>
  Claim C4 says that a group of rank 0 runs before a group of rank 2 armed in the same pass.
  When a task of rank 1 arms both while the pass is at rank 1, the pass goes on to rank 2
  and runs task 1; rank 0 has been passed, and task 0 is run by the next pass of the
  \<^verbatim>\<open>while\<close> loop over \<open>WRITE_ANY\<close>.
\<close>

theorem rank_order_across_passes_counterexample:
  "completes (handleAnimationFrame prog_rank 9 state_rank) \<and>
   map (\<lambda>e. (ev_phase e, ev_task e))
     (flush_events state_rank (handleAnimationFrame prog_rank 9 state_rank))
     = [(PrioWritePhase 1, Callback 2), (PrioWritePhase 2, Callback 1),
        (PrioWritePhase 0, Callback 0)] \<and>
   \<not> sorted (map prio_rank
     (flush_events state_rank (handleAnimationFrame prog_rank 9 state_rank)))"
  by (simp add: model_defs state_rank_def prog_rank_def)

section \<open>The alternation of write and read phases\<close>

lemma closed_onD:
  assumes "closed_on P A M R"
  shows "R s s" and "R a b \<Longrightarrow> R b c \<Longrightarrow> R a c"
    and "A ph rnd \<Longrightarrow> R s (final (invoke P ph rnd r t s))"
    and "m \<in> M \<Longrightarrow> R s (clear_frame_flag f m s)"
    and "READ \<in> M \<Longrightarrow> R s (upd_frame f (\<lambda>fr. fr\<lparr>readTasks := None\<rparr>) s)"
    and "R s (upd_frame f (\<lambda>fr. fr\<lparr>writeTaskGroups := (writeTaskGroups fr)[i := None]\<rparr>) s)"
  using assms unfolding closed_on_def by blast+

lemma on_run_tasks:
  assumes "closed_on P A M R" and "A ph rnd"
  shows "run_tasks P n ph rnd r i s = Some res \<Longrightarrow> R s (final res)"
  by (rule run_tasks_rel [where R = R]) (use assms in \<open>auto dest: closed_onD\<close>)

lemma on_run_groups:
  assumes cl: "closed_on P A M R" and A: "\<And>i. A (PrioWritePhase i) rnd"
  shows "run_groups P n rnd f i s = Some res \<Longrightarrow> R s (final res)"
proof (induction n arbitrary: i s res)
  case 0
  then show ?case by simp
next
  case (Suc n)
  let ?gs = "writeTaskGroups (frames s f)"
  show ?case
  proof (cases "i < length ?gs")
    case False
    with Suc.prems show ?thesis by (auto simp: closed_onD(1) [OF cl])
  next
    case True
    show ?thesis
    proof (cases "?gs ! i")
      case None
      with True Suc.prems Suc.IH show ?thesis by simp
    next
      case (Some g)
      let ?s1 = "upd_frame f (\<lambda>fr. fr\<lparr>writeTaskGroups := (writeTaskGroups fr)[i := None]\<rparr>) s"
      from True Some Suc.prems
      have run: "and_then (run_tasks P n (PrioWritePhase i) rnd g 0 ?s1)
                   (run_groups P n rnd f (Suc i)) = Some res"
        by simp
      have "R ?s1 (final res)"
        using closed_onD(2) [OF cl] _ _ run
      proof (rule and_then_rel)
        fix res1 assume "run_tasks P n (PrioWritePhase i) rnd g 0 ?s1 = Some res1"
        then show "R ?s1 (final res1)" by (rule on_run_tasks [OF cl A])
      next
        fix s1 res2 assume "run_groups P n rnd f (Suc i) s1 = Some res2"
        then show "R s1 (final res2)" by (rule Suc.IH)
      qed
      with closed_onD(6) [OF cl, of s f i] show ?thesis
        by (rule closed_onD(2) [OF cl])
    qed
  qed
qed

lemma on_prio_write_step:
  assumes cl: "closed_on P A M R" and A: "\<And>i. A (PrioWritePhase i) rnd" and M: "WRITE_PRIO \<in> M"
    and run: "prio_write_step P n rnd f s = Some res"
  shows "R s (final res)"
proof (cases "frame_flag_set f WRITE_PRIO s")
  case False
  with run show ?thesis by (auto simp: prio_write_step_def closed_onD(1) [OF cl])
next
  case True
  with run have "run_groups P n rnd f 0 (clear_frame_flag f WRITE_PRIO s) = Some res"
    by (simp add: prio_write_step_def)
  then have "R (clear_frame_flag f WRITE_PRIO s) (final res)"
    by (rule on_run_groups [OF cl A])
  with closed_onD(4) [OF cl M] show ?thesis by (rule closed_onD(2) [OF cl])
qed

lemma on_plain_write_step:
  assumes cl: "closed_on P A M R" and A: "A WritePhase rnd" and M: "WRITE \<in> M"
    and run: "plain_write_step P n rnd f s = Some res"
  shows "R s (final res)"
proof (cases "frame_flag_set f WRITE s")
  case False
  with run show ?thesis by (auto simp: plain_write_step_def closed_onD(1) [OF cl])
next
  case True
  let ?s1 = "clear_frame_flag f WRITE s"
  have R1: "R s ?s1" by (rule closed_onD(4) [OF cl M])
  show ?thesis
  proof (cases "writeTasks (frames ?s1 f)")
    case None
    with True run R1 show ?thesis by (auto simp: plain_write_step_def Let_def)
  next
    case (Some g)
    with True run have "run_tasks P n WritePhase rnd g 0 ?s1 = Some res"
      by (simp add: plain_write_step_def Let_def)
    then have "R ?s1 (final res)" by (rule on_run_tasks [OF cl A])
    with R1 show ?thesis by (rule closed_onD(2) [OF cl])
  qed
qed

lemma on_write_loop:
  assumes cl: "closed_on P A M R" and A: "\<And>ph. is_write_phase ph \<Longrightarrow> A ph rnd"
    and M: "WRITE_PRIO \<in> M" "WRITE \<in> M"
  shows "write_loop P n rnd f s = Some res \<Longrightarrow> R s (final res)"
proof (induction n arbitrary: s res)
  case 0
  then show ?case by simp
next
  case (Suc n)
  show ?case
  proof (cases "frame_flag_set f WRITE_ANY s")
    case False
    with Suc.prems show ?thesis by (auto simp: closed_onD(1) [OF cl])
  next
    case True
    with Suc.prems
    have run: "and_then (prio_write_step P n rnd f s)
       (\<lambda>s1. and_then (plain_write_step P n rnd f s1) (write_loop P n rnd f)) = Some res"
      by simp
    show ?thesis
      using closed_onD(2) [OF cl] _ _ run
    proof (rule and_then_rel)
      fix res1 assume r: "prio_write_step P n rnd f s = Some res1"
      show "R s (final res1)"
        by (rule on_prio_write_step [OF cl _ M(1) r]) (simp add: A is_write_phase_def)
    next
      fix s1 res2
      assume run2: "and_then (plain_write_step P n rnd f s1) (write_loop P n rnd f) = Some res2"
      show "R s1 (final res2)"
        using closed_onD(2) [OF cl] _ _ run2
      proof (rule and_then_rel)
        fix res1 assume r: "plain_write_step P n rnd f s1 = Some res1"
        show "R s1 (final res1)"
          by (rule on_plain_write_step [OF cl _ M(2) r]) (simp add: A is_write_phase_def)
      next
        fix s2 res3 assume "write_loop P n rnd f s2 = Some res3"
        then show "R s2 (final res3)" by (rule Suc.IH)
      qed
    qed
  qed
qed

lemma on_read_loop:
  assumes cl: "closed_on P A M R" and A: "A ReadPhase rnd" and M: "READ \<in> M"
  shows "read_loop P n rnd f s = Some res \<Longrightarrow> R s (final res)"
proof (induction n arbitrary: s res)
  case 0
  then show ?case by simp
next
  case (Suc n)
  show ?case
  proof (cases "frame_flag_set f READ s")
    case False
    with Suc.prems show ?thesis by (auto simp: closed_onD(1) [OF cl])
  next
    case True
    let ?s1 = "clear_frame_flag f READ s"
    let ?s2 = "upd_frame f (\<lambda>fr. fr\<lparr>readTasks := None\<rparr>) ?s1"
    have R2: "R s ?s2"
      by (rule closed_onD(2) [OF cl closed_onD(4) [OF cl M] closed_onD(5) [OF cl M]])
    show ?thesis
    proof (cases "readTasks (frames ?s1 f)")
      case None
      with True Suc.prems R2 show ?thesis by (auto simp: Let_def)
    next
      case (Some g)
      with True Suc.prems
      have run: "and_then (run_tasks P n ReadPhase rnd g 0 ?s2) (read_loop P n rnd f) = Some res"
        by (simp add: Let_def)
      have "R ?s2 (final res)"
        using closed_onD(2) [OF cl] _ _ run
      proof (rule and_then_rel)
        fix res1 assume "run_tasks P n ReadPhase rnd g 0 ?s2 = Some res1"
        then show "R ?s2 (final res1)" by (rule on_run_tasks [OF cl A])
      next
        fix s1 res2 assume "read_loop P n rnd f s1 = Some res2"
        then show "R s1 (final res2)" by (rule Suc.IH)
      qed
      with R2 show ?thesis by (rule closed_onD(2) [OF cl])
    qed
  qed
qed

lemma on_after_loop:
  assumes cl: "closed_on P A M R" and A: "\<And>k. A AfterPhase k" and M: "AFTER \<in> M"
  shows "after_loop P n rnd f s = Some res \<Longrightarrow> R s (final res)"
proof (induction n arbitrary: rnd s res)
  case 0
  then show ?case by simp
next
  case (Suc n)
  show ?case
  proof (cases "frame_flag_set f AFTER s")
    case False
    with Suc.prems show ?thesis by (auto simp: closed_onD(1) [OF cl])
  next
    case True
    let ?s1 = "clear_frame_flag f AFTER s"
    have R1: "R s ?s1" by (rule closed_onD(4) [OF cl M])
    show ?thesis
    proof (cases "afterTasks (frames ?s1 f)")
      case None
      with True Suc.prems R1 show ?thesis by (auto simp: Let_def)
    next
      case (Some g)
      with True Suc.prems
      have run: "and_then (run_tasks P n AfterPhase rnd g 0 ?s1) (after_loop P n (Suc rnd) f) = Some res"
        by (simp add: Let_def)
      have "R ?s1 (final res)"
        using closed_onD(2) [OF cl] _ _ run
      proof (rule and_then_rel)
        fix res1 assume "run_tasks P n AfterPhase rnd g 0 ?s1 = Some res1"
        then show "R ?s1 (final res1)" by (rule on_run_tasks [OF cl A])
      next
        fix s1 res2 assume "after_loop P n (Suc rnd) f s1 = Some res2"
        then show "R s1 (final res2)" by (rule Suc.IH)
      qed
      with R1 show ?thesis by (rule closed_onD(2) [OF cl])
    qed
  qed
qed

subsection \<open>The relations of the alternation are kept\<close>

lemma closed_on_heap_ok: "closed_on P A M heap_ok"
  unfolding closed_on_def
proof (intro conjI allI impI)
  fix a b c assume "heap_ok a b" "heap_ok b c"
  then show "heap_ok a c" by (rule heap_ok_trans)
next
  fix f s
  show "heap_ok s (upd_frame f (\<lambda>fr. fr\<lparr>readTasks := None\<rparr>) s)"
    by (rule heap_ok_upd_frame) (simp_all add: frame_refs_null_field)
next
  fix f i s
  show "heap_ok s (upd_frame f (\<lambda>fr. fr\<lparr>writeTaskGroups := (writeTaskGroups fr)[i := None]\<rparr>) s)"
    by (rule heap_ok_upd_frame) (simp_all add: frame_refs_null_slot)
qed (simp_all add: heap_ok_invoke)

lemma emits_refl [simp]: "emits A s s"
  by (simp add: emits_def new_events_def)

lemma emitsI:
  "trace s' = trace s @ evs \<Longrightarrow> (\<And>e. e \<in> set evs \<Longrightarrow> A (ev_phase e) (ev_round e)) \<Longrightarrow> emits A s s'"
  by (simp add: emits_def new_events_def)

lemma emitsE:
  assumes "emits A s s'"
  obtains evs where "trace s' = trace s @ evs" "new_events s s' = evs"
    "\<And>e. e \<in> set evs \<Longrightarrow> A (ev_phase e) (ev_round e)"
  using assms by (auto simp: emits_def)

lemma emits_trans:
  assumes "emits A a b" and "emits A b c"
  shows "emits A a c"
proof -
  from assms(1) obtain xs where xs: "trace b = trace a @ xs"
    "\<And>e. e \<in> set xs \<Longrightarrow> A (ev_phase e) (ev_round e)"
    by (auto simp: emits_def)
  from assms(2) obtain ys where ys: "trace c = trace b @ ys"
    "\<And>e. e \<in> set ys \<Longrightarrow> A (ev_phase e) (ev_round e)"
    by (auto simp: emits_def)
  show ?thesis
  proof (rule emitsI)
    show "trace c = trace a @ (xs @ ys)" using xs(1) ys(1) by simp
  next
    fix e assume "e \<in> set (xs @ ys)"
    with xs(2) ys(2) show "A (ev_phase e) (ev_round e)" by auto
  qed
qed

lemma emits_invoke: "A ph rnd \<Longrightarrow> emits A s (final (invoke P ph rnd r t s))"
  using invoke_trace [OF refl, of P ph rnd r t s]
  by (auto intro: emitsI [where evs = "[e]" for e])

lemma emits_upd_frame [simp]: "emits A s (upd_frame f g s)"
  by (simp add: emits_def new_events_def)

lemma closed_on_emits: "closed_on P A M (emits A)"
  unfolding closed_on_def clear_frame_flag_def
  by (auto intro: emits_trans emits_invoke)

subsection \<open>A waiting write task stays until the plain write step\<close>

lemma or_keeps_bit: "x AND m \<noteq> 0 \<Longrightarrow> (x OR y) AND m \<noteq> (0::32 word)"
  by (simp add: bit.conj_disj_distrib2 or_eq_0_iff)

lemma write_in_write_any: "frame_flag_set f WRITE s \<Longrightarrow> frame_flag_set f WRITE_ANY s"
proof -
  have "WRITE_ANY AND WRITE = WRITE" by (simp add: WRITE_ANY_def WRITE_def)
  then have "x AND WRITE = (x AND WRITE_ANY) AND WRITE" for x :: "32 word"
    by (simp add: and.assoc)
  then show "frame_flag_set f WRITE s \<Longrightarrow> frame_flag_set f WRITE_ANY s"
    unfolding frame_flag_set_def by (metis and_zero_eq and.commute)
qed

lemma wkeep_refl [simp]: "wkeep f s s"
  by (simp add: wkeep_def)

lemma wkeep_trans: "wkeep f a b \<Longrightarrow> wkeep f b c \<Longrightarrow> wkeep f a c"
  by (simp add: wkeep_def)

lemma wkeep_same: "frames s' = frames s \<Longrightarrow> wkeep f s s'"
  by (simp add: wkeep_def frame_flag_set_def)

lemma wkeep_set_frame_flag [simp]: "wkeep f s (set_frame_flag f' m s)"
  by (simp add: wkeep_def frame_flag_set_def set_frame_flag_def or_keeps_bit)

lemma wkeep_frame_push:
  assumes "\<And>r fr. gt fr = None \<Longrightarrow> frame_flags (st r fr) = frame_flags fr"
    and "\<And>r fr g. gt fr = None \<Longrightarrow> writeTasks fr = Some g \<Longrightarrow> writeTasks (st r fr) = Some g"
  shows "wkeep f s (frame_push f' gt st cb s)"
  using assms
  by (auto simp: wkeep_def frame_flag_set_def frame_push_def push_def new_array_def upd_frame_def
      split: option.splits)

lemma wkeep_apply_frame_op: "wkeep f s (apply_frame_op f' op s)"
proof (cases op)
  case (Write cb prio)
  show ?thesis
  proof (cases prio)
    case None
    have "wkeep f (set_frame_flag f' WRITE s)
        (frame_push f' writeTasks (\<lambda>r fr. fr\<lparr>writeTasks := Some r\<rparr>) cb (set_frame_flag f' WRITE s))"
      by (rule wkeep_frame_push) simp_all
    with wkeep_set_frame_flag [of f s f' WRITE]
    have "wkeep f s
        (frame_push f' writeTasks (\<lambda>r fr. fr\<lparr>writeTasks := Some r\<rparr>) cb (set_frame_flag f' WRITE s))"
      by (rule wkeep_trans)
    then show ?thesis by (simp add: Write None frame_write_def)
  next
    case (Some p)
    let ?s1 = "set_frame_flag f' WRITE_PRIO s"
    let ?s2 = "upd_frame f' (\<lambda>fr. fr\<lparr>writeTaskGroups := pad_groups p (writeTaskGroups fr)\<rparr>) ?s1"
    have "wkeep f ?s1 ?s2"
      by (simp add: wkeep_def frame_flag_set_def)
    moreover have "wkeep f ?s2
        (frame_push f' (\<lambda>fr. writeTaskGroups fr ! p)
          (\<lambda>r fr. fr\<lparr>writeTaskGroups := (writeTaskGroups fr)[p := Some r]\<rparr>) cb ?s2)"
      by (rule wkeep_frame_push) simp_all
    ultimately have "wkeep f s
        (frame_push f' (\<lambda>fr. writeTaskGroups fr ! p)
          (\<lambda>r fr. fr\<lparr>writeTaskGroups := (writeTaskGroups fr)[p := Some r]\<rparr>) cb ?s2)"
      using wkeep_set_frame_flag [of f s f' WRITE_PRIO] by (blast intro: wkeep_trans)
    then show ?thesis by (simp add: Write Some frame_write_def)
  qed
next
  case (Read cb)
  have "wkeep f (set_frame_flag f' READ s)
      (frame_push f' readTasks (\<lambda>r fr. fr\<lparr>readTasks := Some r\<rparr>) cb (set_frame_flag f' READ s))"
    by (rule wkeep_frame_push) simp_all
  with wkeep_set_frame_flag [of f s f' READ]
  have "wkeep f s
      (frame_push f' readTasks (\<lambda>r fr. fr\<lparr>readTasks := Some r\<rparr>) cb (set_frame_flag f' READ s))"
    by (rule wkeep_trans)
  then show ?thesis by (simp add: Read frame_read_def)
next
  case (After cb)
  have "wkeep f (set_frame_flag f' AFTER s)
      (frame_push f' afterTasks (\<lambda>r fr. fr\<lparr>afterTasks := Some r\<rparr>) cb (set_frame_flag f' AFTER s))"
    by (rule wkeep_frame_push) simp_all
  with wkeep_set_frame_flag [of f s f' AFTER]
  have "wkeep f s
      (frame_push f' afterTasks (\<lambda>r fr. fr\<lparr>afterTasks := Some r\<rparr>) cb (set_frame_flag f' AFTER s))"
    by (rule wkeep_trans)
  then show ?thesis by (simp add: After frame_after_def)
qed

lemma wkeep_exec_action: "wkeep f s (final (exec_action a s))"
proof (induction a arbitrary: s)
  case (ScheduleMicrotask cb)
  show ?case by (simp add: wkeep_same scheduleMicrotask_def push_def Let_def)
next
  case (ScheduleMacrotask cb)
  show ?case by (simp add: wkeep_same scheduleMacrotask_def push_def Let_def)
next
  case (OnNextFrame op)
  have "wkeep f s (snd (nextFrame s))"
    by (rule wkeep_same) (simp add: nextFrame_def)
  then have "wkeep f s (apply_frame_op (next_frame s) op (snd (nextFrame s)))"
    using wkeep_apply_frame_op by (rule wkeep_trans)
  then show ?case by (simp add: case_prod_unfold Let_def nextFrame_def split: if_splits)
next
  case (OnCurrentFrame op)
  show ?case by (simp add: wkeep_apply_frame_op)
next
  case Throw
  show ?case by simp
next
  case (Once k a)
  have "wkeep f s (s\<lparr>fired := insert k (fired s)\<rparr>)"
    by (rule wkeep_same) simp
  with Once.IH [of "s\<lparr>fired := insert k (fired s)\<rparr>"] show ?case
    by (auto intro: wkeep_trans)
qed

lemma wkeep_exec_actions: "wkeep f s (final (exec_actions as s))"
proof (induction as arbitrary: s)
  case Nil
  show ?case by simp
next
  case (Cons a as)
  show ?case
  proof (cases "exec_action a s")
    case (Inl e)
    with wkeep_exec_action [of f s a] show ?thesis by simp
  next
    case (Inr s1)
    with wkeep_exec_action [of f s a] Cons.IH [of s1] show ?thesis
      by (auto intro: wkeep_trans)
  qed
qed

lemma keeps_refl [simp]: "keeps f w s s"
  by (simp add: keeps_def)

lemma keeps_trans: "keeps f w a b \<Longrightarrow> keeps f w b c \<Longrightarrow> keeps f w a c"
  by (simp add: keeps_def)

lemma keepsI:
  assumes "wkeep f s s'" and "grows s s'"
  shows "keeps f w s s'"
  unfolding keeps_def
proof
  assume p: "pending_write f w s"
  then obtain r where r: "writeTasks (frames s f) = Some r" "r < fresh s" "w \<in> set (arrays s r)"
    and fl: "frame_flag_set f WRITE s"
    by (auto simp: pending_write_def split: option.splits)
  from assms(2) r(2) obtain ys where "arrays s' r = arrays s r @ ys" "fresh s \<le> fresh s'"
    by (auto simp: grows_def)
  with assms(1) r fl show "pending_write f w s'"
    by (auto simp: pending_write_def wkeep_def)
qed

lemma keeps_exec_actions: "keeps f w s (final (exec_actions as s))"
  by (rule keepsI [OF wkeep_exec_actions grows_exec_actions])

lemma keeps_invoke: "keeps f w s (final (invoke P ph rnd r t s))"
proof -
  have "keeps f w s (log_event ph rnd r t s)"
    by (rule keepsI [OF wkeep_same grows_same]) (simp_all add: log_event_def)
  then show ?thesis
    by (auto simp: invoke_def split: task.splits intro: keeps_trans [OF _ keeps_exec_actions])
qed

lemma keeps_clear_frame_flag:
  assumes "m AND WRITE = 0"
  shows "keeps f w s (clear_frame_flag f' m s)"
  using and_not_disjoint [OF assms]
  by (auto simp: keeps_def pending_write_def frame_flag_set_def clear_frame_flag_def
      split: option.splits)

lemma closed_on_keeps: "closed_on P A {WRITE_PRIO, READ} (keeps f w)"
  unfolding closed_on_def
proof (intro conjI allI impI)
  fix a b c assume "keeps f w a b" "keeps f w b c"
  then show "keeps f w a c" by (rule keeps_trans)
next
  fix f' m s assume "m \<in> {WRITE_PRIO, READ}"
  then have "m AND WRITE = 0"
    by (auto simp: WRITE_PRIO_def READ_def WRITE_def)
  then show "keeps f w s (clear_frame_flag f' m s)" by (rule keeps_clear_frame_flag)
next
  fix f' s
  show "keeps f w s (upd_frame f' (\<lambda>fr. fr\<lparr>readTasks := None\<rparr>) s)"
    by (auto simp: keeps_def pending_write_def frame_flag_set_def split: option.splits)
next
  fix f' i s
  show "keeps f w s
      (upd_frame f' (\<lambda>fr. fr\<lparr>writeTaskGroups := (writeTaskGroups fr)[i := None]\<rparr>) s)"
    by (auto simp: keeps_def pending_write_def frame_flag_set_def split: option.splits)
qed (simp_all add: keeps_invoke)

lemma keeps_run_tasks: "run_tasks P n ph rnd r i s = Some res \<Longrightarrow> keeps f w s (final res)"
  by (rule on_run_tasks [OF closed_on_keeps [where A = "\<lambda>_ _. True"]]) simp_all

lemma keeps_read_loop: "read_loop P n rnd f' s = Some res \<Longrightarrow> keeps f w s (final res)"
  by (rule on_read_loop [OF closed_on_keeps [where A = "\<lambda>_ _. True"]]) simp_all

lemma keeps_prio_write_step:
  "prio_write_step P n rnd f' s = Some res \<Longrightarrow> keeps f w s (final res)"
  by (rule on_prio_write_step [OF closed_on_keeps [where A = "\<lambda>_ _. True"]]) simp_all

lemma heap_ok_write_loop: "write_loop P n rnd f s = Some res \<Longrightarrow> heap_ok s (final res)"
  by (rule on_write_loop [OF closed_on_heap_ok [where A = "\<lambda>_ _. True" and M = UNIV]]) simp_all

lemma heap_ok_read_loop: "read_loop P n rnd f s = Some res \<Longrightarrow> heap_ok s (final res)"
  by (rule on_read_loop [OF closed_on_heap_ok [where A = "\<lambda>_ _. True" and M = UNIV]]) simp_all

subsection \<open>Traces of consecutive steps\<close>

lemma run_rel_trace: "run_rel s s' \<Longrightarrow> trace s' = trace s @ new_events s s'"
  by (auto simp: run_rel_def new_events_def)

lemma run_rel_frames: "run_rel s s' \<Longrightarrow> cur_frame s' = cur_frame s"
  by (simp add: run_rel_def stable_def)

lemma new_events_step:
  "trace b = trace a @ xs \<Longrightarrow> run_rel b c \<Longrightarrow> new_events a c = xs @ new_events b c"
  by (auto simp: run_rel_def new_events_def)

lemma new_events_seq:
  "run_rel a b \<Longrightarrow> run_rel b c \<Longrightarrow> new_events a c = new_events a b @ new_events b c"
  by (auto simp: run_rel_def new_events_def)

lemma new_events_self [simp]: "new_events s s = []"
  by (simp add: new_events_def)

lemma run_rel_write_loop: "write_loop P n rnd f s = Some res \<Longrightarrow> run_rel s (final res)"
  by (rule closed_write_loop [OF closed_run_rel])

lemma run_rel_read_loop: "read_loop P n rnd f s = Some res \<Longrightarrow> run_rel s (final res)"
  by (rule closed_read_loop [OF closed_run_rel])

lemma run_rel_write_read_loop:
  "write_read_loop P n rnd f s = Some res \<Longrightarrow> run_rel s (final res)"
  by (rule closed_write_read_loop [OF closed_run_rel])

lemma run_rel_run_tasks: "run_tasks P n ph rnd r i s = Some res \<Longrightarrow> run_rel s (final res)"
  by (rule closed_run_tasks [OF closed_run_rel])

subsection \<open>A task that calls \<^verbatim>\<open>currentFrame().write(w)\<close> leaves \<open>w\<close> waiting\<close>

lemma frame_write_pending:
  assumes "\<And>r. writeTasks (frames s f) = Some r \<Longrightarrow> r < fresh s"
  shows "pending_write f w (frame_write f w None s)"
proof (cases "writeTasks (frames s f)")
  case None
  then show ?thesis
    by (simp add: pending_write_def frame_write_def frame_push_def set_frame_flag_def
        frame_flag_set_def new_array_def push_def upd_frame_def WRITE_def)
next
  case (Some r)
  with assms [of r] show ?thesis
    by (simp add: pending_write_def frame_write_def frame_push_def set_frame_flag_def
        frame_flag_set_def new_array_def push_def upd_frame_def WRITE_def)
qed

lemma exec_actions_pending:
  assumes "well_formed s" and "exec_actions as s = Inr s1"
    and "OnCurrentFrame (Write w None) \<in> set as"
  shows "pending_write (cur_frame s) w s1"
  using assms
proof (induction as arbitrary: s)
  case Nil
  then show ?case by simp
next
  case (Cons a as)
  from Cons.prems(2) obtain s' where a: "exec_action a s = Inr s'"
    and rest: "exec_actions as s' = Inr s1"
    by (auto split: sum.splits)
  from heap_ok_exec_action [of s a] a Cons.prems(1) have wf': "well_formed s'"
    by (simp add: heap_ok_def)
  from api_rel_exec_action [of s a] a have cf: "cur_frame s' = cur_frame s"
    by (simp add: api_rel_def)
  show ?case
  proof (cases "a = OnCurrentFrame (Write w None)")
    case True
    have "r < fresh s" if "writeTasks (frames s (cur_frame s)) = Some r" for r
    proof -
      from that have "r \<in> set (frame_refs (frames s (cur_frame s)))"
        by (rule frame_refs_field(1))
      then have "r \<in> set (live_refs s)" by (simp add: live_refs_def)
      with Cons.prems(1) show ?thesis by (simp add: well_formed_def)
    qed
    then have "pending_write (cur_frame s) w (frame_write (cur_frame s) w None s)"
      by (rule frame_write_pending)
    with True a have "pending_write (cur_frame s) w s'"
      by (simp add: currentFrame_def)
    with keeps_exec_actions [of "cur_frame s" w s' as] rest show ?thesis
      by (simp add: keeps_def)
  next
    case False
    with Cons.prems(3) have "OnCurrentFrame (Write w None) \<in> set as" by simp
    with Cons.IH [OF wf' rest] cf show ?thesis by simp
  qed
qed

lemma invoke_pending:
  assumes "well_formed s" and "invoke P ph rnd r (Callback c) s = Inr s1"
    and "OnCurrentFrame (Write w None) \<in> set (call_body P c)"
  shows "pending_write (cur_frame s) w s1"
proof -
  let ?s0 = "log_event ph rnd r (Callback c) s"
  from heap_ok_log_event [of s ph rnd r "Callback c"] assms(1) have "well_formed ?s0"
    by (simp add: heap_ok_def)
  moreover from assms(2) have "exec_actions (call_body P c) ?s0 = Inr s1"
    by (simp add: invoke_def)
  ultimately have "pending_write (cur_frame ?s0) w s1"
    using assms(3) by (rule exec_actions_pending)
  then show ?thesis by (simp add: log_event_def)
qed

lemma run_tasks_pending:
  assumes "well_formed s" and "f = cur_frame s" and "run_tasks P n ph rnd r i s = Some (Inr s')"
  shows "\<forall>e \<in> set (new_events s s'). schedules_write P w e \<longrightarrow> pending_write f w s'"
  using assms
proof (induction n arbitrary: i s)
  case 0
  then show ?case by simp
next
  case (Suc n)
  note wf = Suc.prems(1) and f = Suc.prems(2) and run = Suc.prems(3)
  show ?case
  proof (cases "i < length (arrays s r)")
    case False
    with run have "s' = s" by simp
    then show ?thesis by simp
  next
    case True
    let ?t = "arrays s r ! i"
    from True run obtain s1 where inv: "invoke P ph rnd r ?t s = Inr s1"
      and rest: "run_tasks P n ph rnd r (Suc i) s1 = Some (Inr s')"
      by (auto simp: and_then_Some)
    from inv obtain e1 where e1: "trace s1 = trace s @ [e1]" "ev_task e1 = ?t"
      by (rule invoke_trace_Inr)
    from heap_ok_invoke [of s P ph rnd r ?t] inv wf have wf1: "well_formed s1"
      by (simp add: heap_ok_def)
    from stable_invoke [of s P ph rnd r ?t] inv f have f1: "f = cur_frame s1"
      by (simp add: stable_def)
    from run_rel_run_tasks [OF rest] have rr: "run_rel s1 s'" by simp
    have ev: "new_events s s' = [e1] @ new_events s1 s'"
      using e1(1) rr by (rule new_events_step)
    from keeps_run_tasks [OF rest] have k: "keeps f w s1 s'" by simp
    have first: "pending_write f w s'" if "schedules_write P w e1"
    proof -
      from that e1(2) obtain c where "?t = Callback c"
        "OnCurrentFrame (Write w None) \<in> set (call_body P c)"
        by (auto simp: schedules_write_def split: task.splits)
      with wf inv have "pending_write (cur_frame s) w s1"
        by (auto intro: invoke_pending)
      with k f show ?thesis by (simp add: keeps_def)
    qed
    from Suc.IH [OF wf1 f1 rest] first ev show ?thesis by auto
  qed
qed

lemma read_loop_pending:
  assumes "well_formed s" and "f = cur_frame s" and "read_loop P n rnd f s = Some (Inr s')"
  shows "\<forall>e \<in> set (new_events s s'). schedules_write P w e \<longrightarrow> pending_write f w s'"
  using assms
proof (induction n arbitrary: s)
  case 0
  then show ?case by simp
next
  case (Suc n)
  note wf = Suc.prems(1) and f = Suc.prems(2) and run = Suc.prems(3)
  show ?case
  proof (cases "frame_flag_set f READ s")
    case False
    with run have "s' = s" by simp
    then show ?thesis by simp
  next
    case True
    let ?s1 = "clear_frame_flag f READ s"
    let ?s2 = "upd_frame f (\<lambda>fr. fr\<lparr>readTasks := None\<rparr>) ?s1"
    from True run obtain g s3 where g: "readTasks (frames ?s1 f) = Some g"
      and tasks: "run_tasks P n ReadPhase rnd g 0 ?s2 = Some (Inr s3)"
      and rest: "read_loop P n rnd f s3 = Some (Inr s')"
      by (auto simp: Let_def and_then_Some split: option.splits)
    have "heap_ok s ?s1" by simp
    moreover have "heap_ok ?s1 ?s2"
      by (rule heap_ok_upd_frame) (simp_all add: frame_refs_null_field)
    ultimately have wf2: "well_formed ?s2"
      using wf heap_ok_trans [of s ?s1 ?s2] by (simp add: heap_ok_def)
    have f2: "f = cur_frame ?s2" using f by (simp add: clear_frame_flag_def)
    have tr2: "trace ?s2 = trace s" by (simp add: clear_frame_flag_def)
    from heap_ok_run_tasks [OF tasks] wf2 have wf3: "well_formed s3"
      by (simp add: heap_ok_def)
    from run_rel_run_tasks [OF tasks] have rr2: "run_rel ?s2 s3" by simp
    with f2 have f3: "f = cur_frame s3" by (simp add: run_rel_frames)
    from run_rel_read_loop [OF rest] have rr3: "run_rel s3 s'" by simp
    have ev: "new_events s s' = new_events ?s2 s3 @ new_events s3 s'"
      using new_events_seq [OF rr2 rr3] new_events_start [OF tr2, of s'] by simp
    from keeps_read_loop [OF rest] have k: "keeps f w s3 s'" by simp
    from run_tasks_pending [OF wf2 f2 tasks] k
    have "\<forall>e \<in> set (new_events ?s2 s3). schedules_write P w e \<longrightarrow> pending_write f w s'"
      by (auto simp: keeps_def)
    with Suc.IH [OF wf3 f3 rest] ev show ?thesis by auto
  qed
qed

subsection \<open>Iterating a live array runs what is appended meanwhile\<close>

lemma run_tasks_runs_all:
  assumes "run_tasks P n ph rnd r i s = Some (Inr s')" and "r < fresh s"
    and "i \<le> k" and "k < length (arrays s r)"
  shows "\<exists>e \<in> set (new_events s s').
     ev_phase e = ph \<and> ev_round e = rnd \<and> ev_task e = arrays s r ! k"
  using assms
proof (induction n arbitrary: i s)
  case 0
  then show ?case by simp
next
  case (Suc n)
  note run = Suc.prems(1) and r = Suc.prems(2) and ik = Suc.prems(3) and k = Suc.prems(4)
  let ?t = "arrays s r ! i"
  from ik k have "i < length (arrays s r)" by simp
  with run obtain s1 where inv: "invoke P ph rnd r ?t s = Inr s1"
    and rest: "run_tasks P n ph rnd r (Suc i) s1 = Some (Inr s')"
    by (auto simp: and_then_Some)
  from inv obtain e1 where e1: "trace s1 = trace s @ [e1]" "ev_phase e1 = ph"
    "ev_round e1 = rnd" "ev_task e1 = ?t"
    by (rule invoke_trace_Inr)
  from run_rel_run_tasks [OF rest] have rr: "run_rel s1 s'" by simp
  have ev: "new_events s s' = [e1] @ new_events s1 s'"
    using e1(1) rr by (rule new_events_step)
  show ?case
  proof (cases "i = k")
    case True
    with e1 ev show ?thesis by auto
  next
    case False
    from grows_invoke [of s P ph rnd r ?t] inv have "grows s s1" by simp
    with r obtain ys where ys: "arrays s1 r = arrays s r @ ys" and r1: "r < fresh s1"
      by (auto simp: grows_def)
    from ys k have k1: "k < length (arrays s1 r)" and same: "arrays s1 r ! k = arrays s r ! k"
      by (simp_all add: nth_append)
    from False ik have "Suc i \<le> k" by simp
    from Suc.IH [OF rest r1 this k1] same ev show ?thesis by auto
  qed
qed

lemma write_loop_runs_pending:
  assumes "write_loop P n rnd f s = Some (Inr s')" and "pending_write f w s"
  shows "\<exists>e \<in> set (new_events s s').
     ev_phase e = WritePhase \<and> ev_round e = rnd \<and> ev_task e = w"
proof (cases n)
  case 0
  with assms(1) show ?thesis by simp
next
  case (Suc m)
  from assms(2) have "frame_flag_set f WRITE s" by (simp add: pending_write_def)
  then have "frame_flag_set f WRITE_ANY s" by (rule write_in_write_any)
  with assms(1) Suc obtain s1 s2 where prio: "prio_write_step P m rnd f s = Some (Inr s1)"
    and plain: "plain_write_step P m rnd f s1 = Some (Inr s2)"
    and rest: "write_loop P m rnd f s2 = Some (Inr s')"
    by (auto simp: and_then_Some)
  from keeps_prio_write_step [OF prio, of f w] assms(2) have p1: "pending_write f w s1"
    by (simp add: keeps_def)
  then obtain g where fl: "frame_flag_set f WRITE s1" and g: "writeTasks (frames s1 f) = Some g"
    "g < fresh s1" "w \<in> set (arrays s1 g)"
    by (auto simp: pending_write_def split: option.splits)
  let ?s1 = "clear_frame_flag f WRITE s1"
  from fl g(1) plain have tasks: "run_tasks P m WritePhase rnd g 0 ?s1 = Some (Inr s2)"
    by (simp add: plain_write_step_def Let_def clear_frame_flag_def)
  from g(3) obtain k where k: "k < length (arrays s1 g)" "arrays s1 g ! k = w"
    by (auto simp: in_set_conv_nth)
  have "\<exists>e \<in> set (new_events ?s1 s2).
     ev_phase e = WritePhase \<and> ev_round e = rnd \<and> ev_task e = arrays ?s1 g ! k"
    by (rule run_tasks_runs_all [OF tasks]) (use g(2) k(1) in \<open>simp_all add: clear_frame_flag_def\<close>)
  with k(2) obtain e where e: "e \<in> set (new_events ?s1 s2)" "ev_phase e = WritePhase"
    "ev_round e = rnd" "ev_task e = w"
    by (auto simp: clear_frame_flag_def)
  have tr: "trace ?s1 = trace s1" by (simp add: clear_frame_flag_def)
  have rr0: "run_rel s s1" using closed_prio_write_step [OF closed_run_rel prio] by simp
  have rr1: "run_rel ?s1 s2" using run_rel_run_tasks [OF tasks] by simp
  have rr2: "run_rel s2 s'" using run_rel_write_loop [OF rest] by simp
  have "run_rel s1 ?s1" by (simp add: clear_frame_flag_def)
  then have rr1': "run_rel s1 s2" using rr1 by (rule run_rel_trans)
  have "new_events s1 s2 = new_events ?s1 s2"
    using new_events_start [OF tr, of s2] by simp
  moreover have "new_events s s' = new_events s s1 @ new_events s1 s2 @ new_events s2 s'"
    using new_events_seq [OF rr0 run_rel_trans [OF rr1' rr2]] new_events_seq [OF rr1' rr2]
    by simp
  ultimately show ?thesis using e by auto
qed

lemma write_read_loop_runs_pending:
  assumes "write_read_loop P n rnd f s = Some (Inr s')" and "pending_write f w s"
  shows "\<exists>e \<in> set (new_events s s').
     ev_phase e = WritePhase \<and> ev_round e = rnd \<and> ev_task e = w"
proof (cases n)
  case 0
  with assms(1) show ?thesis by simp
next
  case (Suc m)
  with assms(1) obtain s1 s2 where w: "write_loop P m rnd f s = Some (Inr s1)"
    and r: "read_loop P m rnd f s1 = Some (Inr s2)"
    and rest: "(if frame_flag_set f WRITE_ANY s2 then write_read_loop P m (Suc rnd) f s2
                else Some (Inr s2)) = Some (Inr s')"
    by (auto simp: and_then_Some)
  have rr1: "run_rel s s1" using run_rel_write_loop [OF w] by simp
  have rr2: "run_rel s1 s2" using run_rel_read_loop [OF r] by simp
  have rr3: "run_rel s2 s'"
    using rest run_rel_write_read_loop [of P m "Suc rnd" f s2 "Inr s'"]
    by (auto split: if_splits)
  have "new_events s s' = new_events s s1 @ new_events s1 s'"
    using rr1 run_rel_trans [OF rr2 rr3] by (rule new_events_seq)
  with write_loop_runs_pending [OF w assms(2)] show ?thesis by auto
qed

subsection \<open>The order of the phases\<close>

lemma write_loop_emits:
  "write_loop P n rnd f s = Some res \<Longrightarrow>
   emits (\<lambda>ph k. wr_phase ph \<and> stage_of ph k = 2 * rnd) s (final res)"
  by (rule on_write_loop [OF closed_on_emits [where M = UNIV]])
     (auto simp: wr_phase_def stage_of_def is_write_phase_def split: phase.splits)

lemma read_loop_emits:
  "read_loop P n rnd f s = Some res \<Longrightarrow>
   emits (\<lambda>ph k. wr_phase ph \<and> stage_of ph k = 2 * rnd + 1) s (final res)"
  by (rule on_read_loop [OF closed_on_emits [where M = UNIV]])
     (auto simp: wr_phase_def stage_of_def)

lemma after_loop_emits:
  "after_loop P n rnd f s = Some res \<Longrightarrow> emits (\<lambda>ph k. ph = AfterPhase) s (final res)"
  by (rule on_after_loop [OF closed_on_emits [where M = UNIV]]) auto

lemma ordered_refl [simp]: "ordered k s s"
  by (simp add: ordered_def)

lemma ordered_seq:
  assumes "emits (\<lambda>ph k. wr_phase ph \<and> stage_of ph k = c) s s1" and "ordered k s1 s2"
    and "c \<le> k"
  shows "ordered c s s2"
proof -
  define xs where "xs = new_events s s1"
  define ys where "ys = new_events s1 s2"
  from assms(1) have xs: "trace s1 = trace s @ xs"
    "\<forall>e \<in> set xs. wr_phase (ev_phase e) \<and> stage e = c"
    by (auto simp: emits_def xs_def stage_def)
  from assms(2) have ys: "trace s2 = trace s1 @ ys"
    "\<forall>e \<in> set ys. wr_phase (ev_phase e) \<and> k \<le> stage e" "sorted (map stage ys)"
    by (auto simp: ordered_def ys_def)
  have ne: "new_events s s2 = xs @ ys"
    by (simp add: new_events_def xs(1) ys(1))
  have "sorted (map stage (xs @ ys))"
    by (rule sorted_map_const_append [where k = c]) (use xs ys assms(3) in auto)
  moreover have "\<forall>e \<in> set (xs @ ys). wr_phase (ev_phase e) \<and> c \<le> stage e"
    using xs(2) ys(2) assms(3) by auto
  moreover have "trace s2 = trace s @ (xs @ ys)"
    by (simp add: xs(1) ys(1))
  ultimately show ?thesis
    unfolding ordered_def ne by blast
qed

lemma ordered_emits:
  "emits (\<lambda>ph k. wr_phase ph \<and> stage_of ph k = c) s s' \<Longrightarrow> ordered c s s'"
  by (rule ordered_seq [where k = c and ?s1.0 = s']) simp_all

lemma write_read_loop_ordered:
  "write_read_loop P n rnd f s = Some res \<Longrightarrow> ordered (2 * rnd) s (final res)"
proof (induction n arbitrary: rnd s res)
  case 0
  then show ?case by simp
next
  case (Suc n)
  from Suc.prems consider
    (a) e where "write_loop P n rnd f s = Some (Inl e)" "res = Inl e"
    | (b) s1 e where "write_loop P n rnd f s = Some (Inr s1)"
        "read_loop P n rnd f s1 = Some (Inl e)" "res = Inl e"
    | (c) s1 s2 where "write_loop P n rnd f s = Some (Inr s1)"
        "read_loop P n rnd f s1 = Some (Inr s2)"
        "(if frame_flag_set f WRITE_ANY s2 then write_read_loop P n (Suc rnd) f s2
          else Some (Inr s2)) = Some res"
    by (auto simp: and_then_Some)
  then show ?case
  proof cases
    case a
    from write_loop_emits [OF a(1)] a(2) show ?thesis
      by (simp add: ordered_emits)
  next
    case b
    from write_loop_emits [OF b(1)]
    have w: "emits (\<lambda>ph k. wr_phase ph \<and> stage_of ph k = 2 * rnd) s s1" by simp
    from read_loop_emits [OF b(2)] b(3)
    have "ordered (2 * rnd + 1) s1 (final res)" by (simp add: ordered_emits)
    with w show ?thesis by (rule ordered_seq) simp
  next
    case c
    from write_loop_emits [OF c(1)]
    have w: "emits (\<lambda>ph k. wr_phase ph \<and> stage_of ph k = 2 * rnd) s s1" by simp
    from read_loop_emits [OF c(2)]
    have r: "emits (\<lambda>ph k. wr_phase ph \<and> stage_of ph k = 2 * rnd + 1) s1 s2" by simp
    have "ordered (2 * rnd + 1) s1 (final res)"
    proof (cases "frame_flag_set f WRITE_ANY s2")
      case True
      with c(3) have "write_read_loop P n (Suc rnd) f s2 = Some res" by simp
      then have "ordered (2 * Suc rnd) s2 (final res)" by (rule Suc.IH)
      with r show ?thesis by (rule ordered_seq) simp
    next
      case False
      with c(3) have "res = Inr s2" by simp
      with r show ?thesis by (simp add: ordered_emits)
    qed
    with w show ?thesis by (rule ordered_seq) simp
  qed
qed

subsection \<open>The write and read loops end with nothing waiting\<close>

lemma read_loop_quiet:
  "read_loop P n rnd f s = Some (Inr s') \<Longrightarrow> \<not> frame_flag_set f READ s'"
proof (induction n arbitrary: s)
  case 0
  then show ?case by simp
next
  case (Suc n)
  show ?case
  proof (cases "frame_flag_set f READ s")
    case False
    with Suc.prems show ?thesis by simp
  next
    case True
    with Suc.prems obtain s3 where "read_loop P n rnd f s3 = Some (Inr s')"
      by (auto simp: Let_def and_then_Some split: option.splits)
    then show ?thesis by (rule Suc.IH)
  qed
qed

lemma write_read_loop_quiet:
  "write_read_loop P n rnd f s = Some (Inr s') \<Longrightarrow> quiet f s'"
proof (induction n arbitrary: rnd s)
  case 0
  then show ?case by simp
next
  case (Suc n)
  from Suc.prems obtain s1 s2 where r: "read_loop P n rnd f s1 = Some (Inr s2)"
    and rest: "(if frame_flag_set f WRITE_ANY s2 then write_read_loop P n (Suc rnd) f s2
                else Some (Inr s2)) = Some (Inr s')"
    by (auto simp: and_then_Some)
  show ?case
  proof (cases "frame_flag_set f WRITE_ANY s2")
    case True
    with rest show ?thesis by (simp add: Suc.IH)
  next
    case False
    with rest read_loop_quiet [OF r] show ?thesis by (simp add: quiet_def)
  qed
qed

subsection \<open>A write scheduled by a read task runs in the next round\<close>

lemma write_read_loop_alternates:
  assumes "well_formed s" and "f = cur_frame s"
    and "write_read_loop P n rnd f s = Some (Inr s')"
  shows "\<forall>e \<in> set (new_events s s'). ev_phase e = ReadPhase \<and> schedules_write P w e \<longrightarrow>
     (\<exists>e' \<in> set (new_events s s').
        ev_phase e' = WritePhase \<and> ev_round e' = Suc (ev_round e) \<and> ev_task e' = w)"
  using assms
proof (induction n arbitrary: rnd s)
  case 0
  then show ?case by simp
next
  case (Suc n)
  note wf = Suc.prems(1) and f = Suc.prems(2)
  from Suc.prems(3) obtain s1 s2 where w: "write_loop P n rnd f s = Some (Inr s1)"
    and r: "read_loop P n rnd f s1 = Some (Inr s2)"
    and rest: "(if frame_flag_set f WRITE_ANY s2 then write_read_loop P n (Suc rnd) f s2
                else Some (Inr s2)) = Some (Inr s')"
    by (auto simp: and_then_Some)
  have rr1: "run_rel s s1" using run_rel_write_loop [OF w] by simp
  have rr2: "run_rel s1 s2" using run_rel_read_loop [OF r] by simp
  have rr3: "run_rel s2 s'"
    using rest run_rel_write_read_loop [of P n "Suc rnd" f s2 "Inr s'"]
    by (auto split: if_splits)
  from heap_ok_write_loop [OF w] wf have wf1: "well_formed s1" by (simp add: heap_ok_def)
  from rr1 f have f1: "f = cur_frame s1" by (simp add: run_rel_frames)
  from heap_ok_read_loop [OF r] wf1 have wf2: "well_formed s2" by (simp add: heap_ok_def)
  from rr2 f1 have f2: "f = cur_frame s2" by (simp add: run_rel_frames)
  have ev: "new_events s s' = new_events s s1 @ new_events s1 s2 @ new_events s2 s'"
    using new_events_seq [OF rr1 run_rel_trans [OF rr2 rr3]] new_events_seq [OF rr2 rr3]
    by simp
  have W: "\<forall>e \<in> set (new_events s s1). ev_phase e \<noteq> ReadPhase"
  proof
    fix e assume "e \<in> set (new_events s s1)"
    with write_loop_emits [OF w] have st: "stage_of (ev_phase e) (ev_round e) = 2 * rnd"
      by (simp add: emits_def)
    show "ev_phase e \<noteq> ReadPhase"
    proof
      assume "ev_phase e = ReadPhase"
      with st have "2 * ev_round e + 1 = 2 * rnd" by (simp add: stage_of_def)
      then show False by arith
    qed
  qed
  from read_loop_emits [OF r]
  have R: "\<forall>e \<in> set (new_events s1 s2). ev_round e = rnd"
    by (auto simp: emits_def stage_of_def split: if_splits)
  note E = read_loop_pending [OF wf1 f1 r, of w]
  show ?case
  proof (intro ballI impI)
    fix e assume e: "e \<in> set (new_events s s')"
      and sw: "ev_phase e = ReadPhase \<and> schedules_write P w e"
    from e ev W sw consider (read) "e \<in> set (new_events s1 s2)"
      | (later) "e \<in> set (new_events s2 s')"
      by auto
    then have "\<exists>e' \<in> set (new_events s2 s').
        ev_phase e' = WritePhase \<and> ev_round e' = Suc (ev_round e) \<and> ev_task e' = w"
    proof cases
      case read
      with E sw have p: "pending_write f w s2" by blast
      then have "frame_flag_set f WRITE_ANY s2"
        by (simp add: pending_write_def write_in_write_any)
      with rest have "write_read_loop P n (Suc rnd) f s2 = Some (Inr s')" by simp
      from write_read_loop_runs_pending [OF this p] R read show ?thesis by simp
    next
      case later
      show ?thesis
      proof (cases "frame_flag_set f WRITE_ANY s2")
        case True
        with rest have "write_read_loop P n (Suc rnd) f s2 = Some (Inr s')" by simp
        from Suc.IH [OF wf2 f2 this] later sw show ?thesis by simp
      next
        case False
        with rest later show ?thesis by simp
      qed
    qed
    with ev show "\<exists>e' \<in> set (new_events s s').
        ev_phase e' = WritePhase \<and> ev_round e' = Suc (ev_round e) \<and> ev_task e' = w"
      by auto
  qed
qed

lemma well_formed_frame_start: "well_formed s \<Longrightarrow> well_formed (frame_start s)"
  by (auto simp: well_formed_def frame_start_def live_refs_def)

text \<open>
  Claim C1. In a frame flush of a well-formed scheduler the tasks run are write and read
  tasks \<open>wr\<close> followed by after tasks \<open>af\<close>. Along \<open>wr\<close> the stage never decreases: the writes
  of round \<open>k\<close> of the outer \<^verbatim>\<open>do ... while\<close>, then the reads of round \<open>k\<close>, then round
  \<open>k + 1\<close>. When an after task runs, the write and read loops have returned in a state \<open>q\<close>
  where neither \<open>WRITE_ANY\<close> nor \<open>READ\<close> is set in the frame. And when the flush returns, a
  plain write task \<open>w\<close> that a read task of round \<open>k\<close> schedules into the frame being
  flushed is run by the write phase of round \<open>k + 1\<close>, which is part of \<open>wr\<close>, so before
  every after task. The call \<^verbatim>\<open>currentFrame().write(w)\<close> is the append modelled from the
  spec.
\<close>

theorem write_read_alternation:
  assumes "well_formed s" and "handleAnimationFrame P n s = Some res"
  shows "\<exists>wr af. new_events s (final res) = wr @ af \<and>
     (\<forall>e \<in> set wr. wr_phase (ev_phase e)) \<and> sorted (map stage wr) \<and>
     (\<forall>e \<in> set af. ev_phase e = AfterPhase) \<and>
     (af \<noteq> [] \<longrightarrow>
        (\<exists>q. write_read_loop P n 1 (next_frame s) (frame_start s) = Some (Inr q) \<and>
           new_events s q = wr \<and> quiet (next_frame s) q)) \<and>
     (completes (Some res) \<longrightarrow>
        (\<forall>e \<in> set wr. ev_phase e = ReadPhase \<and> schedules_write P w e \<longrightarrow>
           (\<exists>e' \<in> set wr. ev_phase e' = WritePhase \<and> ev_round e' = Suc (ev_round e) \<and>
              ev_task e' = w)))"
proof -
  let ?f = "next_frame s" and ?s0 = "frame_start s"
  from assms(2)
  have u: "and_then (write_read_loop P n 1 ?f ?s0)
       (\<lambda>s5. and_then (after_loop P n 1 ?f s5) (\<lambda>s6. Some (Inr (finish RUNNING s6)))) = Some res"
    by (simp add: handleAnimationFrame_unfold)
  have tr0: "trace ?s0 = trace s" by (simp add: frame_start_def)
  from u consider (err) e where "write_read_loop P n 1 ?f ?s0 = Some (Inl e)" "res = Inl e"
    | (ok) q where "write_read_loop P n 1 ?f ?s0 = Some (Inr q)"
        "and_then (after_loop P n 1 ?f q) (\<lambda>s6. Some (Inr (finish RUNNING s6))) = Some res"
    by (auto simp: and_then_Some)
  then show ?thesis
  proof cases
    case err
    from write_read_loop_ordered [OF err(1)] err(2)
    have "ordered 2 ?s0 (final res)" by simp
    then have "(\<forall>e \<in> set (new_events s (final res)). wr_phase (ev_phase e)) \<and>
        sorted (map stage (new_events s (final res)))"
      using new_events_start [OF tr0, of "final res"] by (simp add: ordered_def)
    moreover from err(2) have "\<not> completes (Some res)" by (simp add: completes_def)
    ultimately show ?thesis
      by (intro exI [where x = "new_events s (final res)"] exI [where x = "[]"]) simp
  next
    case ok
    let ?wr = "new_events s q"
    from ok(2) obtain res6 where res6: "after_loop P n 1 ?f q = Some res6"
      and tr6: "trace (final res) = trace (final res6)"
      by (auto simp: and_then_Some finish_def)
    let ?af = "new_events q (final res6)"
    have nq: "new_events ?s0 q = ?wr" using new_events_start [OF tr0, of q] by simp
    from write_read_loop_ordered [OF ok(1)] have ord: "ordered 2 ?s0 q" by simp
    then have trq: "trace q = trace s @ ?wr"
      and wr: "\<forall>e \<in> set ?wr. wr_phase (ev_phase e)" "sorted (map stage ?wr)"
      unfolding ordered_def nq using tr0 by simp_all
    from after_loop_emits [OF res6]
    have tra: "trace (final res6) = trace q @ ?af"
      and af: "\<forall>e \<in> set ?af. ev_phase e = AfterPhase"
      by (simp_all add: emits_def)
    have 1: "new_events s (final res) = ?wr @ ?af"
    proof -
      have "trace (final res) = trace s @ (?wr @ ?af)"
        unfolding tr6 using tra trq by simp
      then show ?thesis by (rule new_events_append)
    qed
    have 2: "quiet ?f q" using ok(1) by (rule write_read_loop_quiet)
    have wf0: "well_formed ?s0" using assms(1) by (rule well_formed_frame_start)
    have f0: "?f = cur_frame ?s0" by (simp add: frame_start_def)
    from write_read_loop_alternates [OF wf0 f0 ok(1), of w]
    have 3: "\<forall>e \<in> set ?wr. ev_phase e = ReadPhase \<and> schedules_write P w e \<longrightarrow>
       (\<exists>e' \<in> set ?wr. ev_phase e' = WritePhase \<and> ev_round e' = Suc (ev_round e) \<and>
          ev_task e' = w)"
      unfolding nq .
    show ?thesis
      by (rule exI [where x = ?wr], rule exI [where x = ?af])
         (use 1 2 3 wr af ok(1) in blast)
  qed
qed

theorem write_read_alternation_witness:
  "well_formed state_alt \<and>
   completes (handleAnimationFrame prog_alt 9 state_alt) \<and>
   map (\<lambda>e. (ev_phase e, ev_round e, ev_task e))
     (flush_events state_alt (handleAnimationFrame prog_alt 9 state_alt))
     = [(WritePhase, 1, Callback 0), (ReadPhase, 1, Callback 1), (WritePhase, 2, Callback 0),
        (WritePhase, 2, Callback 2), (AfterPhase, 1, Callback 3)] \<and>
   (\<exists>e' \<in> set (flush_events state_alt (handleAnimationFrame prog_alt 9 state_alt)).
      ev_phase e' = WritePhase \<and> ev_round e' = 2 \<and> ev_task e' = Callback 2)"
proof -
  have fuel: "(9::nat) = Suc (Suc (Suc (Suc (Suc (Suc (Suc (Suc (Suc 0))))))))"
    by simp
  have wf: "well_formed state_alt"
    by (simp add: model_defs state_alt_def del: numeral_eq_Suc)
  have c: "completes (handleAnimationFrame prog_alt 9 state_alt)"
    unfolding fuel by (simp add: model_defs state_alt_def prog_alt_def del: numeral_eq_Suc)
  then obtain s1 where r: "handleAnimationFrame prog_alt 9 state_alt = Some (Inr s1)"
    by (rule completesE)
  have evs: "map (\<lambda>e. (ev_phase e, ev_round e, ev_task e))
     (flush_events state_alt (handleAnimationFrame prog_alt 9 state_alt))
     = [(WritePhase, 1, Callback 0), (ReadPhase, 1, Callback 1), (WritePhase, 2, Callback 0),
        (WritePhase, 2, Callback 2), (AfterPhase, 1, Callback 3)]"
    unfolding fuel by (simp add: model_defs state_alt_def prog_alt_def del: numeral_eq_Suc)
  have fe: "flush_events state_alt (handleAnimationFrame prog_alt 9 state_alt)
      = new_events state_alt s1"
    by (simp add: r flush_events_def)
  from evs have "\<exists>er \<in> set (new_events state_alt s1).
      ev_phase er = ReadPhase \<and> ev_round er = 1 \<and> ev_task er = Callback 1"
    unfolding fe by (auto simp: map_eq_Cons_conv)
  then obtain er where er: "er \<in> set (new_events state_alt s1)" "ev_phase er = ReadPhase"
    "ev_round er = 1" "ev_task er = Callback 1"
    by blast
  from write_read_alternation [OF wf r, of "Callback 2"] r
  obtain wr af where s: "new_events state_alt s1 = wr @ af"
    and af: "\<forall>e \<in> set af. ev_phase e = AfterPhase"
    and alt: "\<forall>e \<in> set wr. ev_phase e = ReadPhase \<and> schedules_write prog_alt (Callback 2) e \<longrightarrow>
       (\<exists>e' \<in> set wr. ev_phase e' = WritePhase \<and> ev_round e' = Suc (ev_round e) \<and>
          ev_task e' = Callback 2)"
    by (auto simp: completes_def)
  from er(1,2) s af have "er \<in> set wr" by auto
  moreover from er(4) have "schedules_write prog_alt (Callback 2) er"
    by (simp add: schedules_write_def prog_alt_def)
  ultimately obtain e' where "e' \<in> set wr" "ev_phase e' = WritePhase"
    "ev_round e' = Suc (ev_round er)" "ev_task e' = Callback 2"
    using alt er(2) by blast
  with er(3) s have "\<exists>e' \<in> set (new_events state_alt s1).
      ev_phase e' = WritePhase \<and> ev_round e' = 2 \<and> ev_task e' = Callback 2"
    by auto
  with wf c evs show ?thesis
    unfolding fe by simp
qed

section \<open>What the macrotask flush leaves in the queue\<close>

lemma fired_apply_frame_op [simp]: "fired (apply_frame_op f op s) = fired s"
  by (cases op)
     (simp_all add: frame_write_def frame_read_def frame_after_def frame_push_def push_def
        upd_frame_def new_array_def set_frame_flag_def case_prod_unfold
        split: option.splits)

lemma exec_action_macro:
  assumes "well_formed s" and "exec_action a s = Inr s'"
  shows "arrays s' (macrotasks s) = arrays s (macrotasks s) @ fst (macro_calls a (fired s)) \<and>
     fired s' = snd (macro_calls a (fired s))"
  using assms
proof (induction a arbitrary: s)
  case (ScheduleMicrotask cb)
  from well_formed_queues(1) [OF ScheduleMicrotask.prems(1)] ScheduleMicrotask.prems(2)
  show ?case
    by (auto simp: scheduleMicrotask_def push_def Let_def split: if_splits)
next
  case (ScheduleMacrotask cb)
  then show ?case
    by (auto simp: scheduleMacrotask_def push_def Let_def split: if_splits)
next
  case (OnNextFrame op)
  let ?s1 = "snd (nextFrame s)"
  from heap_ok_nextFrame [of s] OnNextFrame.prems(1) have wf1: "well_formed ?s1"
    by (simp add: heap_ok_def)
  have same: "macrotasks ?s1 = macrotasks s" "arrays ?s1 = arrays s" "fired ?s1 = fired s"
    "next_frame ?s1 = next_frame s"
    by (simp_all add: nextFrame_def)
  from OnNextFrame.prems(2) have s': "s' = apply_frame_op (next_frame s) op ?s1"
    by (simp add: case_prod_unfold Let_def nextFrame_def split: if_splits)
  have "arrays s' (macrotasks ?s1) = arrays ?s1 (macrotasks ?s1)"
    unfolding s' by (rule apply_frame_op_queue [OF wf1]) (simp_all add: same)
  with same s' show ?case by simp
next
  case (OnCurrentFrame op)
  from OnCurrentFrame.prems(2) have s': "s' = apply_frame_op (cur_frame s) op s"
    by (simp add: currentFrame_def)
  have "arrays s' (macrotasks s) = arrays s (macrotasks s)"
    unfolding s' by (rule apply_frame_op_queue [OF OnCurrentFrame.prems(1)]) simp_all
  with s' show ?case by simp
next
  case Throw
  then show ?case by simp
next
  case (Once k a)
  show ?case
  proof (cases "k \<in> fired s")
    case True
    with Once.prems(2) show ?thesis by simp
  next
    case False
    let ?s0 = "s\<lparr>fired := insert k (fired s)\<rparr>"
    from heap_ok_fired [of s "insert k (fired s)"] Once.prems(1) have wf0: "well_formed ?s0"
      by (simp add: heap_ok_def)
    from False Once.prems(2) have "exec_action a ?s0 = Inr s'" by simp
    from Once.IH [OF wf0 this] False show ?thesis by simp
  qed
qed

lemma exec_actions_macro:
  assumes "well_formed s" and "exec_actions as s = Inr s'"
  shows "arrays s' (macrotasks s) = arrays s (macrotasks s) @ fst (macro_calls_body as (fired s)) \<and>
     fired s' = snd (macro_calls_body as (fired s))"
  using assms
proof (induction as arbitrary: s)
  case Nil
  then show ?case by simp
next
  case (Cons a as)
  from Cons.prems(2) obtain s1 where a: "exec_action a s = Inr s1"
    and rest: "exec_actions as s1 = Inr s'"
    by (auto split: sum.splits)
  from heap_ok_exec_action [of s a] a Cons.prems(1) have wf1: "well_formed s1"
    by (simp add: heap_ok_def)
  from api_rel_exec_action [of s a] a have m: "macrotasks s1 = macrotasks s"
    by (simp add: api_rel_def)
  from exec_action_macro [OF Cons.prems(1) a] Cons.IH [OF wf1 rest] m
  show ?case by (simp add: case_prod_unfold Let_def)
qed

lemma invoke_macrotasks: "macrotasks (final (invoke P ph rnd r t s)) = macrotasks s"
  using api_rel_exec_actions [of "log_event ph rnd r t s"]
  by (auto simp: invoke_def api_rel_def log_event_def split: task.splits)

lemma invoke_macro:
  assumes "well_formed s" and "invoke P MacroPhase rnd r t s = Inr s'"
  shows "arrays s' (macrotasks s) = arrays s (macrotasks s) @ fst (macro_calls_task P t (fired s)) \<and>
     fired s' = snd (macro_calls_task P t (fired s))"
proof (cases t)
  case (Callback c)
  let ?s0 = "log_event MacroPhase rnd r t s"
  from heap_ok_log_event [of s MacroPhase rnd r t] assms(1) have wf0: "well_formed ?s0"
    by (simp add: heap_ok_def)
  from assms(2) Callback have "exec_actions (call_body P c) ?s0 = Inr s'"
    by (simp add: invoke_def)
  from exec_actions_macro [OF wf0 this] Callback show ?thesis
    by (simp add: log_event_def macro_calls_task_def)
next
  case (Component c)
  with assms(2) show ?thesis by (simp add: invoke_def is_write_phase_def)
qed

lemma run_tasks_macro:
  assumes "well_formed s" and "detached r s"
    and "run_tasks P n MacroPhase rnd r i s = Some (Inr s')"
  shows "arrays s' (macrotasks s') =
       arrays s (macrotasks s) @ fst (macro_calls_batch P (drop i (arrays s r)) (fired s)) \<and>
     macrotasks s' = macrotasks s \<and>
     fired s' = snd (macro_calls_batch P (drop i (arrays s r)) (fired s))"
  using assms
proof (induction n arbitrary: i s)
  case 0
  then show ?case by simp
next
  case (Suc n)
  note wf = Suc.prems(1) and det = Suc.prems(2) and run = Suc.prems(3)
  show ?case
  proof (cases "i < length (arrays s r)")
    case False
    with run have "s' = s" by simp
    with False show ?thesis by simp
  next
    case True
    let ?t = "arrays s r ! i"
    from True run obtain s1 where inv: "invoke P MacroPhase rnd r ?t s = Inr s1"
      and rest: "run_tasks P n MacroPhase rnd r (Suc i) s1 = Some (Inr s')"
      by (auto simp: and_then_Some)
    from heap_ok_invoke [of s P MacroPhase rnd r ?t] inv wf det
    have wf1: "well_formed s1" and det1: "detached r s1" and arr: "arrays s1 r = arrays s r"
      by (simp_all add: heap_ok_def)
    from invoke_macrotasks [of P MacroPhase rnd r ?t s] inv
    have m: "macrotasks s1 = macrotasks s" by simp
    from True have d: "drop i (arrays s r) = ?t # drop (Suc i) (arrays s r)"
      by (simp add: Cons_nth_drop_Suc)
    from invoke_macro [OF wf inv] Suc.IH [OF wf1 det1 rest] m arr
    show ?thesis
      unfolding d by (auto simp: case_prod_unfold Let_def)
  qed
qed

lemma macrotaskFlush_queue:
  assumes wf: "well_formed s" and run: "macrotaskFlush P n s = Some (Inr s')"
  shows "arrays s' (macrotasks s') = scheduled_macrotasks P s"
proof (cases "arrays s (macrotasks s) = []")
  case True
  with run have "s' = finish RUNNING (macro_start s)"
    by (simp add: macrotaskFlush_unfold)
  with True show ?thesis by (simp add: scheduled_macrotasks_def)
next
  case False
  let ?s0 = "macro_start s"
  let ?r = "macrotasks s"
  let ?s2 = "(snd (new_array ?s0))\<lparr>macrotasks := fresh ?s0\<rparr>"
  from False run obtain s4 where rt: "run_tasks P n MacroPhase 1 ?r 0 ?s2 = Some (Inr s4)"
    and s': "s' = finish RUNNING s4"
    by (auto simp: macrotaskFlush_unfold and_then_Some)
  from wf have wf0: "well_formed ?s0" by simp
  from detach_macrotasks [OF wf0] have wf2: "well_formed ?s2" and det: "detached ?r ?s2"
    by simp_all
  from wf have "?r \<noteq> fresh s" using well_formed_queues(3) by fastforce
  then have arr: "arrays ?s2 ?r = arrays s ?r" by simp
  have new: "arrays ?s2 (macrotasks ?s2) = []" by (simp add: new_array_def)
  have f: "fired ?s2 = fired s" by (simp add: new_array_def macro_start_def)
  from run_tasks_macro [OF wf2 det rt]
  have "arrays s4 (macrotasks s4) = arrays ?s2 (macrotasks ?s2) @
      fst (macro_calls_batch P (drop 0 (arrays ?s2 ?r)) (fired ?s2))"
    by blast
  then have "arrays s4 (macrotasks s4) = fst (macro_calls_batch P (arrays s ?r) (fired s))"
    unfolding arr new f by simp
  with s' show ?thesis
    by (simp add: scheduled_macrotasks_def)
qed

text \<open>When the flush leaves the queue empty, no registration was made.\<close>

lemma macrotaskFlush_unarmed:
  assumes wf: "well_formed s" and run: "macrotaskFlush P n s = Some (Inr s')"
    and empty: "arrays s' (macrotasks s') = []"
  shows "flags s' AND MACROTASK_PENDING = 0 \<and> macrotask_requests s' = macrotask_requests s"
proof (cases "arrays s (macrotasks s) = []")
  case True
  with run have "s' = finish RUNNING (macro_start s)"
    by (simp add: macrotaskFlush_unfold)
  then show ?thesis by (simp add: and_not_disjoint)
next
  case False
  let ?s0 = "macro_start s"
  let ?r = "macrotasks s"
  let ?s2 = "(snd (new_array ?s0))\<lparr>macrotasks := fresh ?s0\<rparr>"
  from False run obtain s4 where rt: "run_tasks P n MacroPhase 1 ?r 0 ?s2 = Some (Inr s4)"
    and s': "s' = finish RUNNING s4"
    by (auto simp: macrotaskFlush_unfold and_then_Some)
  from wf have wf0: "well_formed ?s0" by simp
  from detach_macrotasks [OF wf0] have wf2: "well_formed ?s2" by simp
  have "macro_armed ?s2" by (simp add: macro_armed_def new_array_def)
  with macro_inv_run_tasks [OF rt] wf2 have "macro_armed s4"
    by (simp add: macro_inv_def)
  with empty s' have z: "flags s4 AND MACROTASK_PENDING = 0"
    by (simp add: macro_armed_def)
  from stable_run_tasks [OF rt]
  have "arm_rel MACROTASK_PENDING macrotask_requests ?s2 s4"
    by (simp add: stable_def regs_rel_def)
  with z have "macrotask_requests s4 = macrotask_requests s"
    by (auto simp: arm_rel_def new_array_def)
  with z s' show ?thesis by (simp add: and_not_disjoint)
qed

text \<open>
  Claim C5. On a well-formed scheduler the macrotask flush returns (it needs no more steps
  than the queue is long). When it returns normally, the tasks it ran are exactly the tasks
  that were in the queue when it started, once each and in arrival order, run from the detached
  array; the first of them starts with MACROTASK_PENDING clear. The macrotasks that these
  tasks schedule are not run by this flush: they are, in the order of the calls, exactly the
  contents of the queue that the flush leaves. If there is one, MACROTASK_PENDING is set and
  exactly one new registration has been made; if there is none, the bit is clear and no
  registration has been made. The scheduler is well formed again, and the next flush runs
  exactly the macrotasks that the tasks of this one scheduled.
\<close>

theorem macrotask_flush_runs_batch_once:
  assumes "well_formed s"
  shows "(length (arrays s (macrotasks s)) < n \<longrightarrow> macrotaskFlush P n s \<noteq> None) \<and>
     (\<forall>s'. macrotaskFlush P n s = Some (Inr s') \<longrightarrow>
        map ev_task (new_events s s') = arrays s (macrotasks s) \<and>
        (\<forall>e \<in> set (new_events s s'). ev_phase e = MacroPhase \<and> \<not> iterates_live e) \<and>
        (new_events s s' = [] \<or> ev_flags (hd (new_events s s')) AND MACROTASK_PENDING = 0) \<and>
        arrays s' (macrotasks s') = scheduled_macrotasks P s \<and>
        (arrays s' (macrotasks s') = [] \<or>
           flags s' AND MACROTASK_PENDING \<noteq> 0 \<and>
           macrotask_requests s' = macrotask_requests s + 1) \<and>
        (arrays s' (macrotasks s') = [] \<longrightarrow>
           flags s' AND MACROTASK_PENDING = 0 \<and>
           macrotask_requests s' = macrotask_requests s) \<and>
        well_formed s' \<and>
        (\<forall>m s''. macrotaskFlush P m s' = Some (Inr s'') \<longrightarrow>
           map ev_task (new_events s' s'') = scheduled_macrotasks P s))"
proof -
  have nxt: "map ev_task (new_events s' s'') = scheduled_macrotasks P s"
    if "macrotaskFlush P n s = Some (Inr s')" and "macrotaskFlush P m s' = Some (Inr s'')"
    for s' m s''
  proof -
    from macrotaskFlush_Inr [OF assms that(1)] have "well_formed s'" by blast
    from macrotaskFlush_Inr [OF this that(2)] macrotaskFlush_queue [OF assms that(1)]
    show ?thesis by simp
  qed
  show ?thesis
    using macrotaskFlush_returns [OF assms] macrotaskFlush_Inr [OF assms]
      macrotaskFlush_queue [OF assms] macrotaskFlush_unarmed [OF assms] nxt
    by (intro conjI impI allI) blast+
qed

theorem macrotask_flush_runs_batch_once_witness:
  "well_formed state_macro \<and>
   completes (macrotaskFlush prog_macro 5 state_macro) \<and>
   map ev_task (flush_events state_macro (macrotaskFlush prog_macro 5 state_macro))
     = [Callback 0] \<and>
   scheduled_macrotasks prog_macro state_macro = [Callback 1] \<and>
   map_option (pending_macrotasks \<circ> final) (macrotaskFlush prog_macro 5 state_macro)
     = Some [Callback 1] \<and>
   map_option (macrotask_requests \<circ> final) (macrotaskFlush prog_macro 5 state_macro) = Some 2"
proof -
  have wf: "well_formed state_macro" by code_simp
  have c: "completes (macrotaskFlush prog_macro 5 state_macro)" by code_simp
  then obtain s1 where r: "macrotaskFlush prog_macro 5 state_macro = Some (Inr s1)"
    by (rule completesE)
  have q: "arrays state_macro (macrotasks state_macro) = [Callback 0]"
    and n: "macrotask_requests state_macro = 1"
    and sch: "scheduled_macrotasks prog_macro state_macro = [Callback 1]"
    by code_simp+
  from macrotask_flush_runs_batch_once [OF wf, of 5 prog_macro] r q n sch
  have "map ev_task (new_events state_macro s1) = [Callback 0]"
    and "arrays s1 (macrotasks s1) = [Callback 1]"
    and "macrotask_requests s1 = 2"
    by auto
  with wf c r sch show ?thesis
    by (simp add: flush_events_def pending_macrotasks_def)
qed

end
